theory Spec2Isabelle
  imports Main
begin

section \<open>JavaScript values and strings\<close>

text \<open>
  The resolution pipeline works on the trees that the YAML loader returns: null, booleans,
  numbers, strings, arrays and plain objects. An object is the list of its own properties
  in insertion order; a well-formed object has no key twice (see \<open>wf_jv\<close>). A property
  that is absent reads as \<open>undefined\<close>, which is \<open>None\<close> of \<open>jv option\<close>.
  Numbers are the integers (YAML floats, NaN and dates are outside the model), characters
  are bytes, properties inherited from \<open>Object.prototype\<close> are not modelled, and the
  engine's reordering of integer-like property names is not modelled either. A document
  that contains itself, through a YAML alias to an enclosing collection, is not a tree and
  is outside the model too.
\<close>

datatype jv =
    JNull
  | JBool bool
  | JNum int
  | JStr string
  | JArr "jv list"
  | JObj "(string \<times> jv) list"

fun truthy :: "jv \<Rightarrow> bool" where
  "truthy JNull = False"
| "truthy (JBool b) = b"
| "truthy (JNum n) = (n \<noteq> 0)"
| "truthy (JStr s) = (s \<noteq> [])"
| "truthy (JArr xs) = True"
| "truthy (JObj kvs) = True"

fun truthy_opt :: "jv option \<Rightarrow> bool" where
  "truthy_opt None = False"
| "truthy_opt (Some v) = truthy v"

fun is_array :: "jv \<Rightarrow> bool" where
  "is_array (JArr xs) = True"
| "is_array v = False"

fun is_plain_object :: "jv \<Rightarrow> bool" where
  "is_plain_object (JObj kvs) = True"
| "is_plain_object v = False"

text \<open>\<open>typeof v === 'object'\<close> for a value that is not null: arrays and plain objects.\<close>

fun is_object :: "jv \<Rightarrow> bool" where
  "is_object (JArr xs) = True"
| "is_object (JObj kvs) = True"
| "is_object v = False"

text \<open>Decimal rendering of numbers, as \<open>String(n)\<close> gives it for integers.\<close>

definition digit_char :: "nat \<Rightarrow> char" where
  "digit_char d = ''0123456789'' ! d"

function show_nat :: "nat \<Rightarrow> string" where
  "show_nat n = (if n < 10 then [digit_char n] else show_nat (n div 10) @ [digit_char (n mod 10)])"
  by pat_completeness auto
termination
  by (relation "measure id") auto

declare show_nat.simps [simp del]

definition show_int :: "int \<Rightarrow> string" where
  "show_int i = (if i < 0 then CHR ''-'' # show_nat (nat (- i)) else show_nat (nat i))"

fun join :: "string \<Rightarrow> string list \<Rightarrow> string" where
  "join sep [] = []"
| "join sep [x] = x"
| "join sep (x # y # ys) = x @ sep @ join sep (y # ys)"

text \<open>
  \<open>String(v)\<close>, which is also the coercion of a computed property name and of a value
  inside a template literal. Inside \<open>Array.prototype.join\<close> a null element is the empty
  string.
\<close>

fun to_string :: "jv \<Rightarrow> string" where
  "to_string JNull = ''null''"
| "to_string (JBool b) = (if b then ''true'' else ''false'')"
| "to_string (JNum n) = show_int n"
| "to_string (JStr s) = s"
| "to_string (JArr xs) = join '','' (map (\<lambda>x. if x = JNull then [] else to_string x) xs)"
| "to_string (JObj kvs) = ''[object Object]''"

fun to_string_opt :: "jv option \<Rightarrow> string" where
  "to_string_opt None = ''undefined''"
| "to_string_opt (Some v) = to_string v"

text \<open>
  \<open>s.split(sep)\<close> for a non-empty separator: the pieces between the occurrences of
  \<open>sep\<close>, found left to right without overlap. \<open>acc\<close> is the current piece, reversed.
\<close>

function split_acc :: "string \<Rightarrow> string \<Rightarrow> string \<Rightarrow> string list" where
  "split_acc sep acc [] = [rev acc]"
| "split_acc sep acc (x # xs) =
     (if sep \<noteq> [] \<and> take (length sep) (x # xs) = sep
      then rev acc # split_acc sep [] (drop (length sep) (x # xs))
      else split_acc sep (x # acc) xs)"
  by pat_completeness auto
termination
  by (relation "measure (\<lambda>(sep, acc, s). length s)") auto

definition split :: "string \<Rightarrow> string \<Rightarrow> string list" where
  "split sep s = split_acc sep [] s"

text \<open>\<open>s.startsWith(p)\<close> and \<open>s.includes(p)\<close>.\<close>

definition startsWith :: "string \<Rightarrow> string \<Rightarrow> bool" where
  "startsWith s p = (take (length p) s = p)"

fun str_includes :: "string \<Rightarrow> string \<Rightarrow> bool" where
  "str_includes [] p = (p = [])"
| "str_includes (x # xs) p = (startsWith (x # xs) p \<or> str_includes xs p)"

text \<open>
  \<open>Object.entries(v)\<close> and the object spread \<open>{...v}\<close> of a value that is not null:
  the own enumerable properties. An array has its indices, a string its characters, a
  number or a boolean none.
\<close>

fun own_entries :: "jv \<Rightarrow> (string \<times> jv) list" where
  "own_entries (JObj kvs) = kvs"
| "own_entries (JArr xs) = zip (map show_nat [0..<length xs]) xs"
| "own_entries (JStr s) = zip (map show_nat [0..<length s]) (map (\<lambda>c. JStr [c]) s)"
| "own_entries v = []"

text \<open>\<open>v[k]\<close> for a value \<open>v\<close> that is not null; \<open>None\<close> is \<open>undefined\<close>.\<close>

fun js_get :: "jv \<Rightarrow> string \<Rightarrow> jv option" where
  "js_get (JObj kvs) k = map_of kvs k"
| "js_get (JArr xs) k =
     (if k = ''length'' then Some (JNum (int (length xs))) else map_of (own_entries (JArr xs)) k)"
| "js_get (JStr s) k =
     (if k = ''length'' then Some (JNum (int (length s))) else map_of (own_entries (JStr s)) k)"
| "js_get v k = None"

text \<open>\<open>obj[k] = v\<close> on a plain object: an existing key keeps its place, a new one goes last.\<close>

fun obj_set :: "string \<Rightarrow> jv \<Rightarrow> (string \<times> jv) list \<Rightarrow> (string \<times> jv) list" where
  "obj_set k v [] = [(k, v)]"
| "obj_set k v ((k', v') # kvs) =
     (if k' = k then (k, v) # kvs else (k', v') # obj_set k v kvs)"

text \<open>\<open>{...a, ...b}\<close> on property lists: the properties of \<open>b\<close> are assigned in order.\<close>

definition spread2 :: "(string \<times> jv) list \<Rightarrow> (string \<times> jv) list \<Rightarrow> (string \<times> jv) list" where
  "spread2 a b = fold (\<lambda>(k, v) r. obj_set k v r) b a"

text \<open>The double quote and the apostrophe, for the messages.\<close>

definition dq :: string where
  "dq = [CHR 0x22]"

definition sq :: string where
  "sq = [CHR 0x27]"

text \<open>
  The message of the \<open>TypeError\<close> that reading property \<open>k\<close> of null raises (the text is
  the engine's; here V8's).
\<close>

definition type_error_null :: "string \<Rightarrow> string" where
  "type_error_null k = ''Cannot read properties of null (reading '' @ sq @ k @ sq @ '')''"

section \<open>Conflict comparator (the comparison module)\<close>


text \<open>
  \<open>extractHostPort\<close>, as the comparison module exports it. A mapping that starts with a
  bracket has an IPv6 address that runs to the first closing bracket (\<open>indexOf\<close>, here the
  length of the text before it); otherwise the mapping is split at every colon: two parts
  are HOST:CONTAINER, three parts are IP:HOST:CONTAINER, anything else is skipped. An empty
  host port gives no key.
\<close>

definition extractHostPort :: "jv \<Rightarrow> string option" where
  "extractHostPort portMapping =
     (case portMapping of
        JStr s \<Rightarrow>
          if s = [] then None
          else if startsWith s ''['' then
            let closeBracket = length (takeWhile (\<lambda>c. c \<noteq> CHR '']'') s) in
            if closeBracket = length s then None
            else
              let ip = take (closeBracket + 1) s;
                  remaining = drop (closeBracket + 1) s in
              if startsWith remaining '':'' then
                let hostPort = hd (split '':'' (drop 1 remaining)) in
                if hostPort = [] then None
                else Some (ip @ '':'' @ hd (split ''/'' hostPort))
              else None
          else
            let parts = split '':'' s in
            if length parts = 2 then
              if parts ! 0 = [] then None
              else Some (''0.0.0.0'' @ '':'' @ hd (split ''/'' (parts ! 0)))
            else if length parts = 3 then
              if parts ! 0 = [] \<and> parts ! 1 = [] then None
              else if parts ! 1 = [] then None
              else Some ((parts ! 0) @ '':'' @ hd (split ''/'' (parts ! 1)))
            else None
      | _ \<Rightarrow> None)"

definition extractVolumeSource :: "jv \<Rightarrow> string option" where
  "extractVolumeSource volumeMapping =
     (case volumeMapping of
        JStr s \<Rightarrow>
          if s = [] then None
          else let p = hd (split '':'' s) in if p = [] then None else Some p
      | _ \<Rightarrow> None)"


record usage =
  u_project :: string
  u_service :: string
  u_mapping :: "jv option"



text \<open>
  A JavaScript \<open>Map\<close> whose values are arrays, in insertion order. \<open>map_push eq k v\<close> is
  \<open>if (!m.has(k)) m.set(k, []); m.get(k).push(v)\<close>, with \<open>eq\<close> the key comparison.
\<close>

fun map_push :: "('k \<Rightarrow> 'k \<Rightarrow> bool) \<Rightarrow> 'k \<Rightarrow> 'v \<Rightarrow> ('k \<times> 'v list) list \<Rightarrow> ('k \<times> 'v list) list" where
  "map_push eq k v [] = [(k, [v])]"
| "map_push eq k v ((k', vs) # m) =
     (if eq k' k then (k', vs @ [v]) # m else (k', vs) # map_push eq k v m)"

text \<open>
  Key comparison of a \<open>Map\<close> (SameValueZero): primitives by value, arrays and objects by
  identity. The values of a document tree are distinct objects, so two arrays or objects
  met at different places are never the same key.
\<close>

fun same_value_zero :: "jv \<Rightarrow> jv \<Rightarrow> bool" where
  "same_value_zero (JArr xs) w = False"
| "same_value_zero (JObj kvs) w = False"
| "same_value_zero v w = (v = w)"

record cmp_maps =
  portMap :: "(string \<times> usage list) list"
  containerNameMap :: "(jv \<times> usage list) list"
  serviceNameMap :: "(string \<times> string list) list"
  volumeMap :: "(string \<times> usage list) list"
  networkMap :: "(string \<times> string list) list"
  envFileMap :: "(jv \<times> usage list) list"



definition collect_volume :: "string \<Rightarrow> string \<Rightarrow> jv \<Rightarrow> cmp_maps \<Rightarrow> cmp_maps" where
  "collect_volume projectName serviceName vol m =
     (case extractVolumeSource vol of
        None \<Rightarrow> m
      | Some source \<Rightarrow>
          m\<lparr> volumeMap := map_push (=) source
                \<lparr> u_project = projectName, u_service = serviceName, u_mapping = Some vol \<rparr>
                (volumeMap m) \<rparr>)"

definition collect_env_file :: "string \<Rightarrow> string \<Rightarrow> jv \<Rightarrow> cmp_maps \<Rightarrow> cmp_maps" where
  "collect_env_file projectName serviceName envFile m =
     m\<lparr> envFileMap := map_push same_value_zero envFile
           \<lparr> u_project = projectName, u_service = serviceName, u_mapping = None \<rparr>
           (envFileMap m) \<rparr>"



text \<open>\<open>x || {}\<close> followed by \<open>Object.entries\<close>.\<close>

definition entries_or_empty :: "jv option \<Rightarrow> (string \<times> jv) list" where
  "entries_or_empty x = (case x of None \<Rightarrow> [] | Some v \<Rightarrow> if truthy v then own_entries v else [])"

















section \<open>Extends resolver\<close>

text \<open>A well-formed tree: no object has a key twice.\<close>

fun wf_jv :: "jv \<Rightarrow> bool" where
  "wf_jv (JObj kvs) = (distinct (map fst kvs) \<and> list_all (\<lambda>e. wf_jv (snd e)) kvs)"
| "wf_jv (JArr xs) = list_all wf_jv xs"
| "wf_jv v = True"

text \<open>\<open>Object.fromEntries\<close>: the pairs are assigned in order.\<close>

definition fromEntries :: "(string \<times> jv) list \<Rightarrow> (string \<times> jv) list" where
  "fromEntries es = spread2 [] es"

definition service_started :: jv where
  "service_started = JObj [(''condition'', JStr ''service_started'')]"

text \<open>
  \<open>normalizeDependsOn\<close>: a falsy value becomes the empty mapping, the short array form
  becomes the long form, anything else is returned as it is.
\<close>

definition normalizeDependsOn :: "jv \<Rightarrow> jv" where
  "normalizeDependsOn dependsOn =
     (if \<not> truthy dependsOn then JObj []
      else (case dependsOn of
              JArr xs \<Rightarrow> JObj (fromEntries (map (\<lambda>svc. (to_string svc, service_started)) xs))
            | _ \<Rightarrow> dependsOn))"

datatype strategy = Concat | Merge | Override

text \<open>\<open>MERGE_STRATEGIES[key] || 'override'\<close>.\<close>

definition merge_strategy :: "string \<Rightarrow> strategy" where
  "merge_strategy key =
     (if key \<in> set [''ports'', ''expose'', ''external_links'', ''dns'', ''dns_search'', ''tmpfs'',
                     ''volumes''] then Concat
      else if key \<in> set [''environment'', ''labels'', ''build'', ''deploy'', ''logging'',
                          ''depends_on''] then Merge
      else Override)"

text \<open>
  \<open>deepMerge(base, override)\<close>; the base may be \<open>undefined\<close>. \<open>merge_entries\<close> is the loop
  over the entries of the override, with the result so far as its first argument.
\<close>

function deepMerge :: "jv option \<Rightarrow> jv \<Rightarrow> jv"
  and merge_entries :: "(string \<times> jv) list \<Rightarrow> (string \<times> jv) list \<Rightarrow> (string \<times> jv) list" where
  "deepMerge base override =
     (case base of
        None \<Rightarrow> override
      | Some b \<Rightarrow>
          if \<not> truthy b \<or> \<not> is_object b then override
          else if \<not> is_object override then b
          else JObj (merge_entries (own_entries b) (own_entries override)))"
| "merge_entries result [] = result"
| "merge_entries result (e # rest) =
     merge_entries
       (obj_set (fst e)
          (if is_plain_object (snd e) then deepMerge (map_of result (fst e)) (snd e) else snd e)
          result)
       rest"
  by pat_completeness auto

lemma zip_values_size:
  "length ks = length xs \<Longrightarrow> (\<Sum>e\<leftarrow>zip ks xs. Suc (size (snd e))) = size_list size xs"
  by (induction ks xs rule: list_induct2) auto

lemma own_entries_size:
  "is_object v \<Longrightarrow> (\<Sum>e\<leftarrow>own_entries v. Suc (size (snd e))) < size v"
proof (cases v)
  case (JArr xs)
  then show ?thesis using zip_values_size[of "map show_nat [0..<length xs]" xs] by simp
next
  case (JObj kvs)
  have "(\<Sum>e\<leftarrow>kvs. Suc (size (snd e))) \<le> size_list (size_prod (\<lambda>_. 0) size) kvs"
    by (induction kvs) auto
  then show ?thesis using JObj by simp
qed auto

termination deepMerge
  apply (relation "measure (\<lambda>x. case x of Inl (b, ov) \<Rightarrow> size ov
                                | Inr (r, es) \<Rightarrow> (\<Sum>e\<leftarrow>es. Suc (size (snd e))))")
    apply (auto simp: own_entries_size)
  done

text \<open>
  The array spread \<open>[...v]\<close> of a truthy value: an array gives its elements, a string its
  characters, anything else is not iterable and raises a \<open>TypeError\<close>.
\<close>

definition not_iterable :: "jv \<Rightarrow> string" where
  "not_iterable v = to_string v @ '' is not iterable''"

fun spread_iterable :: "jv \<Rightarrow> string + jv list" where
  "spread_iterable (JArr xs) = Inr xs"
| "spread_iterable (JStr s) = Inr (map (\<lambda>c. JStr [c]) s)"
| "spread_iterable v = Inl (not_iterable v)"

text \<open>\<open>[...(cur || []), ...(Array.isArray(value) ? value : [value])]\<close>.\<close>

definition concat_values :: "jv option \<Rightarrow> jv \<Rightarrow> string + jv" where
  "concat_values cur v =
     (let tl_items = (case v of JArr ys \<Rightarrow> ys | _ \<Rightarrow> [v]) in
      case cur of
        None \<Rightarrow> Inr (JArr tl_items)
      | Some c \<Rightarrow>
          if \<not> truthy c then Inr (JArr tl_items)
          else (case spread_iterable c of
                  Inl err \<Rightarrow> Inl err
                | Inr xs \<Rightarrow> Inr (JArr (xs @ tl_items))))"

text \<open>\<open>cur || {}\<close>.\<close>

definition or_empty_object :: "jv option \<Rightarrow> jv" where
  "or_empty_object cur = (case cur of None \<Rightarrow> JObj [] | Some c \<Rightarrow> if truthy c then c else JObj [])"

text \<open>
  \<open>{ ...v }\<close> followed by the normalisation of a truthy \<open>depends_on\<close>, as
  \<open>mergeServiceConfigs\<close> does for both of its arguments.
\<close>

definition normalized :: "jv \<Rightarrow> (string \<times> jv) list" where
  "normalized v =
     (case js_get v ''depends_on'' of
        None \<Rightarrow> own_entries v
      | Some d \<Rightarrow>
          if truthy d then obj_set ''depends_on'' (normalizeDependsOn d) (own_entries v)
          else own_entries v)"

text \<open>
  The body of the loop of \<open>mergeServiceConfigs\<close>: the new value of \<open>result[key]\<close>, from
  its current value and the value of the override, by the strategy of the key.
\<close>

definition merge_field_value :: "string \<Rightarrow> jv option \<Rightarrow> jv \<Rightarrow> string + jv" where
  "merge_field_value key cur v =
     (case merge_strategy key of
        Concat \<Rightarrow> concat_values cur v
      | Merge \<Rightarrow> Inr (deepMerge (Some (or_empty_object cur)) v)
      | Override \<Rightarrow> Inr v)"

text \<open>The loop of \<open>mergeServiceConfigs\<close> over the entries of the normalised override.\<close>

fun merge_fields :: "(string \<times> jv) list \<Rightarrow> (string \<times> jv) list \<Rightarrow> string + (string \<times> jv) list" where
  "merge_fields result [] = Inr result"
| "merge_fields result (e # rest) =
     (case merge_field_value (fst e) (map_of result (fst e)) (snd e) of
        Inl err \<Rightarrow> Inl err
      | Inr v \<Rightarrow> merge_fields (obj_set (fst e) v result) rest)"

text \<open>
  \<open>mergeServiceConfigs(base, override)\<close>; \<open>Inl\<close> is the message of the \<open>TypeError\<close> it
  raises (a null argument, or a concatenated field whose base value is not iterable).
\<close>

definition mergeServiceConfigs :: "jv \<Rightarrow> jv \<Rightarrow> string + jv" where
  "mergeServiceConfigs base override =
     (if base = JNull \<or> override = JNull then Inl (type_error_null ''depends_on'')
      else (case merge_fields (normalized base) (normalized override) of
              Inl err \<Rightarrow> Inl err
            | Inr result \<Rightarrow> Inr (JObj result)))"

text \<open>
  The service that a service extends: \<open>None\<close> when \<open>service.extends\<close> is falsy, else the
  name, which is the string itself or the \<open>service\<close> property (possibly \<open>undefined\<close>).
\<close>

definition extends_target :: "jv \<Rightarrow> jv option option" where
  "extends_target service =
     (case js_get service ''extends'' of
        None \<Rightarrow> None
      | Some e \<Rightarrow>
          if \<not> truthy e then None
          else (case e of JStr s \<Rightarrow> Some (Some (JStr s)) | _ \<Rightarrow> Some (js_get e ''service'')))"

text \<open>The separator of a chain in the messages: space, rightwards arrow (UTF-8), space.\<close>

definition arrow :: string where
  "arrow = [CHR 0x20, CHR 0xE2, CHR 0x86, CHR 0x92, CHR 0x20]"

text \<open>An element inside \<open>Array.prototype.join\<close>: null and \<open>undefined\<close> are empty.\<close>

fun join_item :: "jv option \<Rightarrow> string" where
  "join_item None = []"
| "join_item (Some JNull) = []"
| "join_item (Some v) = to_string v"

definition circular_extends :: "jv option list \<Rightarrow> jv option \<Rightarrow> string" where
  "circular_extends visited name =
     ''Circular extends detected: '' @ join arrow (map join_item visited) @ arrow @ to_string_opt name"

definition extends_not_found :: "jv option \<Rightarrow> string" where
  "extends_not_found name =
     ''Service '' @ dq @ to_string_opt name @ dq @ '' referenced in extends not found''"

text \<open>The names that the services of a document extend.\<close>

definition extends_targets :: "jv \<Rightarrow> jv option set" where
  "extends_targets allServices =
     {n. \<exists>e \<in> set (own_entries allServices). extends_target (snd e) = Some n}"

definition own_target :: "jv \<Rightarrow> jv option set" where
  "own_target service = (case extends_target service of None \<Rightarrow> {} | Some n \<Rightarrow> {n})"

text \<open>
  \<open>resolveServiceExtends(service, allServices, visited)\<close>. \<open>visited\<close> is the set of names,
  in insertion order; names are compared by value (for a name that is an array or an
  object the engine compares identities, which changes the message of a cycle through
  such names, not whether resolution fails).
\<close>

function resolveServiceExtends :: "jv \<Rightarrow> jv \<Rightarrow> jv option list \<Rightarrow> string + jv" where
  "resolveServiceExtends service allServices visited =
     (if service = JNull then Inl (type_error_null ''extends'')
      else
        (case extends_target service of
           None \<Rightarrow> Inr service
         | Some extendedServiceName \<Rightarrow>
             if extendedServiceName \<in> set visited
             then Inl (circular_extends visited extendedServiceName)
             else
               (case js_get allServices (to_string_opt extendedServiceName) of
                  None \<Rightarrow> Inl (extends_not_found extendedServiceName)
                | Some extendedService \<Rightarrow>
                    if \<not> truthy extendedService
                    then Inl (extends_not_found extendedServiceName)
                    else
                      (case resolveServiceExtends extendedService allServices
                              (visited @ [extendedServiceName]) of
                         Inl err \<Rightarrow> Inl err
                       | Inr resolvedBase \<Rightarrow>
                           mergeServiceConfigs resolvedBase
                             (JObj (filter (\<lambda>e. fst e \<noteq> ''extends'') (own_entries service)))))))"
  by pat_completeness auto

lemma finite_extends_targets: "finite (extends_targets a)"
proof -
  have "extends_targets a \<subseteq> (\<lambda>e. the (extends_target (snd e))) ` set (own_entries a)"
    by (force simp: extends_targets_def)
  then show ?thesis by (rule finite_surj[rotated]) simp
qed

lemma js_get_target:
  assumes "js_get a k = Some v" "extends_target v = Some n"
  shows "n \<in> extends_targets a"
proof (cases a)
  case (JObj kvs)
  with assms have "(k, v) \<in> set (own_entries a)" by (auto dest: map_of_SomeD)
  with assms(2) show ?thesis by (force simp: extends_targets_def)
next
  case (JArr xs)
  show ?thesis
  proof (cases "k = ''length''")
    case True
    with assms JArr show ?thesis by (auto simp: extends_target_def)
  next
    case False
    with assms JArr have "(k, v) \<in> set (own_entries a)" by (auto dest: map_of_SomeD)
    with assms(2) show ?thesis by (force simp: extends_targets_def)
  qed
next
  case (JStr s)
  show ?thesis
  proof (cases "k = ''length''")
    case True
    with assms JStr show ?thesis by (auto simp: extends_target_def)
  next
    case False
    with assms JStr have "(k, v) \<in> set (own_entries a)" by (auto dest: map_of_SomeD)
    with assms(2) show ?thesis by (force simp: extends_targets_def)
  qed
qed (use assms in auto)

lemma own_target_subset:
  "js_get a k = Some v \<Longrightarrow> own_target v \<subseteq> extends_targets a"
  by (auto simp: own_target_def split: option.splits dest: js_get_target)

termination resolveServiceExtends
proof (relation "measure (\<lambda>(service, allServices, visited).
           card ((extends_targets allServices \<union> own_target service) - set visited))", goal_cases)
  case 1
  show ?case by simp
next
  case (2 service allServices visited n ext)
  have sub: "own_target ext \<subseteq> extends_targets allServices"
    using 2 own_target_subset by blast
  have own: "own_target service = {n}" using 2 by (simp add: own_target_def)
  have "(extends_targets allServices \<union> own_target ext) - set (visited @ [n])
        \<subset> (extends_targets allServices \<union> own_target service) - set visited"
    using sub own 2 by auto
  moreover have "finite ((extends_targets allServices \<union> own_target service) - set visited)"
    using own by (simp add: finite_extends_targets)
  ultimately show ?case by (simp add: psubset_card_mono)
qed

declare resolveServiceExtends.simps [simp del]

definition extends_failed :: "string \<Rightarrow> string \<Rightarrow> string" where
  "extends_failed name msg =
     ''Error resolving extends for service '' @ dq @ name @ dq @ '': '' @ msg"

text \<open>The loop of \<open>resolveAllExtends\<close>; \<open>resolvedServices\<close> is the object built so far.\<close>

fun resolve_services :: "jv \<Rightarrow> (string \<times> jv) list \<Rightarrow> (string \<times> jv) list \<Rightarrow> string + (string \<times> jv) list" where
  "resolve_services allServices [] resolvedServices = Inr resolvedServices"
| "resolve_services allServices (e # rest) resolvedServices =
     (case resolveServiceExtends (snd e) allServices [] of
        Inl msg \<Rightarrow> Inl (extends_failed (fst e) msg)
      | Inr r \<Rightarrow> resolve_services allServices rest (obj_set (fst e) r resolvedServices))"

definition resolveAllExtends :: "jv \<Rightarrow> string + jv" where
  "resolveAllExtends compose =
     (if compose = JNull then Inl (type_error_null ''services'')
      else (case js_get compose ''services'' of
              None \<Rightarrow> Inr compose
            | Some services \<Rightarrow>
                if \<not> truthy services then Inr compose
                else (case resolve_services services (own_entries services) [] of
                        Inl err \<Rightarrow> Inl err
                      | Inr resolvedServices \<Rightarrow>
                          Inr (JObj (obj_set ''services'' (JObj resolvedServices)
                                      (own_entries compose))))))"

text \<open>The services of a document: \<open>Object.entries(compose.services || {})\<close>.\<close>

definition services_of :: "jv \<Rightarrow> (string \<times> jv) list" where
  "services_of compose = entries_or_empty (js_get compose ''services'')"

text \<open>A service whose \<open>extends\<close> property is absent or truthy (not null, false, 0 or empty).\<close>

definition no_falsy_extends :: "jv \<Rightarrow> bool" where
  "no_falsy_extends service =
     (case js_get service ''extends'' of None \<Rightarrow> True | Some e \<Rightarrow> truthy e)"

section \<open>Path resolver (src/utils/pathResolver.js)\<close>

text \<open>The loop of \<open>normalizePath\<close>; \<open>kept\<close> is its array \<open>normalized\<close>, the segments kept so far.\<close>

fun normalize_segments :: "string list \<Rightarrow> string list \<Rightarrow> string list" where
  "normalize_segments kept [] = kept"
| "normalize_segments kept (segment # rest) =
     (if segment = ''.'' then normalize_segments kept rest
      else if segment = ''..'' then normalize_segments (butlast kept) rest
      else normalize_segments (kept @ [segment]) rest)"

definition normalizePath :: "string \<Rightarrow> string" where
  "normalizePath path =
     (if path = [] then []
      else join ''/'' (normalize_segments [] (filter (\<lambda>s. s \<noteq> []) (split ''/'' path))))"

definition dirname :: "string \<Rightarrow> string" where
  "dirname path =
     (if path = [] then []
      else
        let npath = normalizePath path in
        if CHR ''/'' \<notin> set npath then []
        else rev (tl (dropWhile (\<lambda>c. c \<noteq> CHR ''/'') (rev npath))))"

definition joinPath :: "string \<Rightarrow> string \<Rightarrow> string" where
  "joinPath basePath relativePath =
     (if basePath = [] then normalizePath relativePath
      else if relativePath = [] then normalizePath basePath
      else
        let cleanRelative = (if startsWith relativePath ''./'' then drop 2 relativePath
                             else relativePath)
        in normalizePath (basePath @ ''/'' @ cleanRelative))"

definition resolvePath :: "string \<Rightarrow> string \<Rightarrow> string" where
  "resolvePath currentFile targetPath = joinPath (dirname currentFile) targetPath"

section \<open>Include resolver\<close>

text \<open>
  The YAML loader is a library outside the repository: \<open>yaml.load\<close> is a parameter, a
  function from the text to the message of the error it raises or to the value it returns
  (\<open>None\<close> is \<open>undefined\<close>, the result for an empty document). The file map is the list of
  its entries; its values are strings.
\<close>

type_synonym yaml_load = "string \<Rightarrow> string + jv option"
type_synonym file_map = "(string \<times> string) list"

definition reserved_collections :: "string list" where
  "reserved_collections = [''services'', ''networks'', ''volumes'', ''secrets'', ''configs'']"

text \<open>
  The body of the loop of \<open>mergeComposeFiles\<close>: the new value of \<open>result[key]\<close> from its
  current value and the value of the override.
\<close>

definition merge_top_value :: "string \<Rightarrow> jv option \<Rightarrow> jv \<Rightarrow> jv" where
  "merge_top_value key cur v =
     (if key = ''name'' then v
      else if key \<in> set reserved_collections
      then JObj (spread2 (entries_or_empty cur) (entries_or_empty (Some v)))
      else v)"

text \<open>The loop of \<open>mergeComposeFiles\<close> over the entries of the override.\<close>

fun merge_top_level :: "(string \<times> jv) list \<Rightarrow> (string \<times> jv) list \<Rightarrow> (string \<times> jv) list" where
  "merge_top_level result [] = result"
| "merge_top_level result (e # rest) =
     merge_top_level
       (obj_set (fst e) (merge_top_value (fst e) (map_of result (fst e)) (snd e)) result) rest"

definition mergeComposeFiles :: "jv option \<Rightarrow> jv option \<Rightarrow> jv" where
  "mergeComposeFiles base override =
     (if \<not> truthy_opt override then (if truthy_opt base then the base else JObj [])
      else if \<not> truthy_opt base then the override
      else JObj (merge_top_level (own_entries (the base)) (own_entries (the override))))"

definition circular_include_current :: "string \<Rightarrow> string" where
  "circular_include_current absoluteCurrent =
     ''Circular include detected: '' @ absoluteCurrent @ '' already in chain''"

definition circular_include :: "string list \<Rightarrow> string \<Rightarrow> string" where
  "circular_include newVisited absoluteInclude =
     ''Circular include detected: '' @ join arrow newVisited @ arrow @ absoluteInclude"

definition include_not_found :: "string \<Rightarrow> string \<Rightarrow> file_map \<Rightarrow> string" where
  "include_not_found includePath absoluteInclude fileMap =
     ''Include file not found: '' @ dq @ includePath @ dq @ [CHR 0x0A] @
     ''Resolved to: '' @ dq @ absoluteInclude @ dq @ [CHR 0x0A] @
     ''Available files: '' @ join '', '' (map fst fileMap)"

definition include_parse_failed :: "string \<Rightarrow> string \<Rightarrow> string" where
  "include_parse_failed includePath msg =
     ''Failed to parse included file '' @ dq @ includePath @ dq @ '': '' @ msg"

text \<open>
  The message of the \<open>TypeError\<close> raised when the path of an include is truthy but not a
  string, so that it has no \<open>replace\<close> or \<open>split\<close> method (the text is the engine's).
\<close>

definition path_not_string :: "jv \<Rightarrow> string" where
  "path_not_string p = to_string p @ '' is not a string''"

text \<open>
  \<open>typeof includeSpec === 'string' ? includeSpec : includeSpec.path\<close>, for an
  \<open>includeSpec\<close> that is not null.
\<close>

definition include_path :: "jv \<Rightarrow> jv option" where
  "include_path includeSpec =
     (case includeSpec of JStr s \<Rightarrow> Some (JStr s) | _ \<Rightarrow> js_get includeSpec ''path'')"

definition include_list :: "jv \<Rightarrow> jv list" where
  "include_list inc = (case inc of JArr xs \<Rightarrow> xs | _ \<Rightarrow> [inc])"

text \<open>The normalised paths of the files of the map, for the termination of the resolver.\<close>

definition known_paths :: "file_map \<Rightarrow> string set" where
  "known_paths fileMap = normalizePath ` set (map fst fileMap)"

text \<open>
  \<open>resolveIncludes(compose, currentFile, fileMap, visited)\<close>, and \<open>process_includes\<close>, the
  loop over the include entries with \<open>merged\<close> as the running result.
\<close>

function resolveIncludes :: "yaml_load \<Rightarrow> file_map \<Rightarrow> jv option \<Rightarrow> string \<Rightarrow> string list \<Rightarrow> string + jv option"
  and process_includes :: "yaml_load \<Rightarrow> file_map \<Rightarrow> string \<Rightarrow> string list \<Rightarrow> jv list \<Rightarrow> jv \<Rightarrow> string + jv" where
  "resolveIncludes yl fileMap compose currentFile visited =
     (case compose of
        None \<Rightarrow> Inr None
      | Some c \<Rightarrow>
          if \<not> truthy c \<or> \<not> truthy_opt (js_get c ''include'') then Inr (Some c)
          else
            let absoluteCurrent = normalizePath currentFile in
            if absoluteCurrent \<in> set visited then Inl (circular_include_current absoluteCurrent)
            else
              (case process_includes yl fileMap currentFile (visited @ [absoluteCurrent])
                      (include_list (the (js_get c ''include'')))
                      (JObj (filter (\<lambda>e. fst e \<noteq> ''include'') (own_entries c))) of
                 Inl err \<Rightarrow> Inl err
               | Inr merged \<Rightarrow> Inr (Some merged)))"
| "process_includes yl fileMap currentFile newVisited [] merged = Inr merged"
| "process_includes yl fileMap currentFile newVisited (includeSpec # rest) merged =
     (if includeSpec = JNull then Inl (type_error_null ''path'')
      else if \<not> truthy_opt (include_path includeSpec)
      then process_includes yl fileMap currentFile newVisited rest merged
      else
        (case the (include_path includeSpec) of
           JStr includePath \<Rightarrow>
             let absoluteInclude = resolvePath currentFile includePath in
             if absoluteInclude \<in> set newVisited
             then Inl (circular_include newVisited absoluteInclude)
             else
               (case map_of fileMap absoluteInclude of
                  None \<Rightarrow> Inl (include_not_found includePath absoluteInclude fileMap)
                | Some fileContent \<Rightarrow>
                    if fileContent = []
                    then Inl (include_not_found includePath absoluteInclude fileMap)
                    else
                      (case yl fileContent of
                         Inl msg \<Rightarrow> Inl (include_parse_failed includePath msg)
                       | Inr included \<Rightarrow>
                           (case resolveIncludes yl fileMap included absoluteInclude newVisited of
                              Inl err \<Rightarrow> Inl err
                            | Inr resolvedInclude \<Rightarrow>
                                process_includes yl fileMap currentFile newVisited rest
                                  (mergeComposeFiles resolvedInclude (Some merged)))))
         | p \<Rightarrow> Inl (path_not_string p)))"
  by pat_completeness auto

lemma finite_known_paths: "finite (known_paths fm)"
  by (simp add: known_paths_def)

lemma known_paths_member: "map_of fm p = Some t \<Longrightarrow> normalizePath p \<in> known_paths fm"
  by (auto simp: known_paths_def dest!: map_of_SomeD intro!: image_eqI[where x=p] image_eqI[where x="(p, t)"])

lemma card_visit_less:
  assumes "a \<notin> set visited"
  shows "card (known_paths fm - set (visited @ [a])) < card (known_paths fm \<union> {a} - set visited)"
proof -
  have "known_paths fm - set (visited @ [a]) \<subset> known_paths fm \<union> {a} - set visited"
    using assms by auto
  moreover have "finite (known_paths fm \<union> {a} - set visited)"
    by (simp add: finite_known_paths)
  ultimately show ?thesis by (rule psubset_card_mono[rotated])
qed

termination resolveIncludes
proof (relation "inv_image (less_than <*lex*> less_than) (\<lambda>x. case x of
            Inl (yl, fm, compose, currentFile, visited) \<Rightarrow>
              (card ((known_paths fm \<union> {normalizePath currentFile}) - set visited), 0)
          | Inr (yl, fm, currentFile, newVisited, incs, merged) \<Rightarrow>
              (card (known_paths fm - set newVisited), Suc (length incs)))", goal_cases)
  case 1
  show ?case by (intro wf_inv_image wf_lex_prod wf_less_than)
next
  case (2 yl fileMap compose currentFile visited c absoluteCurrent)
  then show ?case using card_visit_less[of absoluteCurrent visited fileMap] by simp
next
  case (3 yl fileMap currentFile newVisited includeSpec rest merged)
  then show ?case by simp
next
  case (4 yl fileMap currentFile newVisited includeSpec rest merged includePath absoluteInclude fileContent included)
  then have "normalizePath absoluteInclude \<in> known_paths fileMap"
    by (auto intro: known_paths_member)
  then have "known_paths fileMap \<union> {normalizePath absoluteInclude} = known_paths fileMap" by auto
  then show ?case by simp
next
  case 5
  then show ?case by simp
qed

declare resolveIncludes.simps [simp del]

text \<open>
  What one round of the loop of \<open>resolveIncludes\<close> merges under the running result: the
  resolved document of the include entry, or \<open>undefined\<close> for an entry that the loop skips
  (merging \<open>undefined\<close> leaves the running result as it is). \<open>Inl\<close> is the error of the round.
\<close>

definition included_document :: "yaml_load \<Rightarrow> file_map \<Rightarrow> string \<Rightarrow> string list \<Rightarrow> jv \<Rightarrow> string + jv option" where
  "included_document yl fileMap currentFile newVisited includeSpec =
     (if includeSpec = JNull then Inl (type_error_null ''path'')
      else if \<not> truthy_opt (include_path includeSpec) then Inr None
      else
        (case the (include_path includeSpec) of
           JStr includePath \<Rightarrow>
             let absoluteInclude = resolvePath currentFile includePath in
             if absoluteInclude \<in> set newVisited
             then Inl (circular_include newVisited absoluteInclude)
             else
               (case map_of fileMap absoluteInclude of
                  None \<Rightarrow> Inl (include_not_found includePath absoluteInclude fileMap)
                | Some fileContent \<Rightarrow>
                    if fileContent = []
                    then Inl (include_not_found includePath absoluteInclude fileMap)
                    else
                      (case yl fileContent of
                         Inl msg \<Rightarrow> Inl (include_parse_failed includePath msg)
                       | Inr included \<Rightarrow>
                           resolveIncludes yl fileMap included absoluteInclude newVisited))
         | p \<Rightarrow> Inl (path_not_string p)))"

text \<open>
  The own property \<open>name\<close> of the collection \<open>coll\<close> of a document, \<open>None\<close> when the document,
  the collection or the property is missing (a collection that is falsy has no property).
\<close>

definition collection_entry :: "jv option \<Rightarrow> string \<Rightarrow> string \<Rightarrow> jv option" where
  "collection_entry doc coll name =
     (case doc of
        None \<Rightarrow> None
      | Some d \<Rightarrow> map_of (entries_or_empty (js_get d coll)) name)"

text \<open>The first value that is defined, in the order of the list.\<close>

fun first_defined :: "'a option list \<Rightarrow> 'a option" where
  "first_defined [] = None"
| "first_defined (None # xs) = first_defined xs"
| "first_defined (Some v # xs) = Some v"

text \<open>A value that may be \<open>undefined\<close> is well formed when it is \<open>undefined\<close> or a well-formed tree.\<close>

definition wf_opt :: "jv option \<Rightarrow> bool" where
  "wf_opt d = (case d of None \<Rightarrow> True | Some v \<Rightarrow> wf_jv v)"

section \<open>Variable interpolator (src/utils/variableInterpolator.js)\<close>

text \<open>
  The environment maps a variable name to its string value; \<open>None\<close> is a variable that is
  \<open>undefined\<close> or null.
\<close>

type_synonym env = "string \<Rightarrow> string option"

text \<open>
  The destructuring \<open>[a, b] = expression.split(sep)\<close>: the first two pieces, the second
  \<open>undefined\<close> when there is none.
\<close>

definition first_two :: "string list \<Rightarrow> string \<times> string option" where
  "first_two ps = (case ps of [] \<Rightarrow> ([], None) | [a] \<Rightarrow> (a, None) | a # b # _ \<Rightarrow> (a, Some b))"

record parsed_expression =
  varName :: string
  defaultValue :: "string option"
  errorMessage :: "string option"
  requireSet :: bool
  requireNonEmpty :: bool

text \<open>The chain of tests at the head of \<open>substituteVariable\<close>.\<close>

definition parse_expression :: "string \<Rightarrow> parsed_expression" where
  "parse_expression expression =
     (if str_includes expression '':?'' then
        (let p = first_two (split '':?'' expression) in
         \<lparr> varName = fst p, defaultValue = None, errorMessage = snd p,
           requireSet = False, requireNonEmpty = True \<rparr>)
      else if str_includes expression ''?'' \<and> \<not> str_includes expression '':-'' \<and>
              \<not> str_includes expression ''-'' then
        (let p = first_two (split ''?'' expression) in
         \<lparr> varName = fst p, defaultValue = None, errorMessage = snd p,
           requireSet = True, requireNonEmpty = False \<rparr>)
      else if str_includes expression '':-'' then
        (let p = first_two (split '':-'' expression) in
         \<lparr> varName = fst p, defaultValue = snd p, errorMessage = None,
           requireSet = False, requireNonEmpty = True \<rparr>)
      else if str_includes expression ''-'' then
        (let p = first_two (split ''-'' expression) in
         \<lparr> varName = fst p, defaultValue = snd p, errorMessage = None,
           requireSet = True, requireNonEmpty = False \<rparr>)
      else
        \<lparr> varName = expression, defaultValue = None, errorMessage = None,
          requireSet = False, requireNonEmpty = False \<rparr>)"

text \<open>
  \<open>substituteVariable(match, expression, env)\<close>; \<open>Inl\<close> is the message of the error it
  throws. An error message that is empty is falsy and throws nothing.
\<close>

definition substituteVariable :: "string \<Rightarrow> string \<Rightarrow> env \<Rightarrow> string + string" where
  "substituteVariable match expression env =
     (let p = parse_expression expression;
          val = env (varName p);
          isSet = (val \<noteq> None);
          isEmpty = (\<not> isSet \<or> val = Some [])
      in
      if (case errorMessage p of None \<Rightarrow> False | Some m \<Rightarrow> m \<noteq> []) \<and>
         ((requireNonEmpty p \<and> isEmpty) \<or> (requireSet p \<and> \<not> isSet))
      then Inl (the (errorMessage p))
      else if defaultValue p \<noteq> None \<and>
              ((requireNonEmpty p \<and> isEmpty) \<or> (requireSet p \<and> \<not> isSet))
      then Inr (the (defaultValue p))
      else Inr (case val of None \<Rightarrow> [] | Some v \<Rightarrow> v))"

text \<open>\<open>s.replace(/pat/g, rep)\<close> for a literal pattern.\<close>

definition replace_all :: "string \<Rightarrow> string \<Rightarrow> string \<Rightarrow> string" where
  "replace_all pat rep s = join rep (split pat s)"

definition ESCAPED_DOLLAR_PLACEHOLDER :: string where
  "ESCAPED_DOLLAR_PLACEHOLDER = [CHR 0x00] @ ''ESCAPED_DOLLAR'' @ [CHR 0x00]"

text \<open>
  One attempt of \<open>VARIABLE_REGEX\<close>, a dollar not preceded by a dollar, an opening brace,
  one or more characters other than a closing brace, a closing brace, at the head of \<open>s\<close>,
  where \<open>prev\<close> is the character before it. The result is the expression between the braces
  and the rest of the string after the match.
\<close>

definition var_match :: "char option \<Rightarrow> string \<Rightarrow> (string \<times> string) option" where
  "var_match prev s =
     (case s of
        c1 # c2 # rest \<Rightarrow>
          if c1 = CHR ''$'' \<and> c2 = CHR ''{'' \<and> prev \<noteq> Some (CHR ''$'') then
            (let expression = takeWhile (\<lambda>c. c \<noteq> CHR ''}'') rest in
             if expression = [] \<or> length expression = length rest then None
             else Some (expression, drop (Suc (length expression)) rest))
          else None
      | _ \<Rightarrow> None)"

text \<open>\<open>expression.split(/[:-?]/)[0]\<close>: the class is the range from the colon to the question mark.\<close>

definition name_of_expression :: "string \<Rightarrow> string" where
  "name_of_expression expression = takeWhile (\<lambda>c. c \<notin> set '':;<=>?'') expression"

text \<open>A call of the \<open>onError\<close> callback: the message of the error and the context.\<close>

record error_call =
  err_message :: string
  ctx_match :: string
  ctx_expression :: string
  ctx_varName :: string

text \<open>
  The state of \<open>interpolateString\<close>: the text produced so far, the two results
  \<open>hasVariable\<close> and \<open>variables\<close>, the calls of \<open>onError\<close> so far, and the message of
  the error thrown, if any.
\<close>

record interp =
  resolved :: string
  hasVariable :: bool
  variables :: "string list"
  reported :: "error_call list"
  thrown :: "string option"

definition interp_init :: interp where
  "interp_init = \<lparr> resolved = [], hasVariable = False, variables = [], reported = [], thrown = None \<rparr>"

lemma var_match_shorter: "var_match prev s = Some (e, r) \<Longrightarrow> length r < length s"
  by (auto simp: var_match_def Let_def split: list.splits if_splits)

text \<open>
  The global replace of \<open>VARIABLE_REGEX\<close> with the callback of \<open>interpolateString\<close>,
  scanning \<open>s\<close> from the left; \<open>prev\<close> is the character before the current position.
\<close>

function replace_variables :: "env \<Rightarrow> bool \<Rightarrow> char option \<Rightarrow> string \<Rightarrow> interp \<Rightarrow> interp" where
  "replace_variables env throwOnError prev [] st = st"
| "replace_variables env throwOnError prev (c # s) st =
     (case var_match prev (c # s) of
        None \<Rightarrow>
          replace_variables env throwOnError (Some c) s (st\<lparr> resolved := resolved st @ [c] \<rparr>)
      | Some m \<Rightarrow>
          let expression = fst m;
              whole = ''${'' @ expression @ ''}'';
              name = name_of_expression expression;
              st1 = st\<lparr> hasVariable := True,
                        variables := (if name \<in> set (variables st) then variables st
                                      else variables st @ [name]) \<rparr>
          in
          (case substituteVariable whole expression env of
             Inr v \<Rightarrow>
               replace_variables env throwOnError (Some (CHR ''}'')) (snd m)
                 (st1\<lparr> resolved := resolved st1 @ v \<rparr>)
           | Inl msg \<Rightarrow>
               let st2 = st1\<lparr> reported := reported st1 @
                              [\<lparr> err_message = msg, ctx_match = whole,
                                 ctx_expression = expression, ctx_varName = name \<rparr>] \<rparr>
               in
               if throwOnError then st2\<lparr> thrown := Some msg \<rparr>
               else replace_variables env throwOnError (Some (CHR ''}'')) (snd m)
                      (st2\<lparr> resolved := resolved st2 @ whole \<rparr>)))"
  by pat_completeness auto
termination
  by (relation "measure (\<lambda>(env, t, prev, s, st). length s)")
     (auto dest!: var_match_shorter)

text \<open>
  \<open>interpolateString(str, env, options)\<close> for a string: escape, replace, restore. When
  \<open>thrown\<close> is set the function has raised and the other fields are lost.
\<close>

definition interpolateString :: "string \<Rightarrow> env \<Rightarrow> bool \<Rightarrow> interp" where
  "interpolateString str env throwOnError =
     (let preprocessed = replace_all ''$$'' ESCAPED_DOLLAR_PLACEHOLDER str;
          st = replace_variables env throwOnError None preprocessed interp_init
      in st\<lparr> resolved := replace_all ESCAPED_DOLLAR_PLACEHOLDER ''$'' (resolved st) \<rparr>)"

text \<open>
  The reading of a string that the specification of the interpolator describes, in one pass
  from the left: \<open>$$\<close> is an escaped dollar; a reference is \<open>${\<close>, an expression that is not
  empty and has no closing brace, and \<open>}\<close> (what \<open>VARIABLE_REGEX\<close> matches at that place); any
  other character stands for itself.
\<close>

datatype token = Escape | Reference string | Plain char

function tokens :: "string \<Rightarrow> token list" where
  "tokens [] = []"
| "tokens (c # s) =
     (if c = CHR ''$'' \<and> take 1 s = ''$'' then Escape # tokens (drop 1 s)
      else
        (case var_match None (c # s) of
           Some m \<Rightarrow> Reference (fst m) # tokens (snd m)
         | None \<Rightarrow> Plain c # tokens s))"
  by pat_completeness auto
termination
  by (relation "measure length") (auto dest!: var_match_shorter)

declare tokens.simps [simp del]

text \<open>
  The text that a token stands for, with \<open>esc\<close> for an escaped dollar: a reference stands for
  what \<open>substituteVariable\<close> returns, and for itself when \<open>substituteVariable\<close> throws (and
  \<open>throwOnError\<close> is off).
\<close>

definition token_text :: "string \<Rightarrow> env \<Rightarrow> token \<Rightarrow> string" where
  "token_text esc env tok =
     (case tok of
        Escape \<Rightarrow> esc
      | Plain c \<Rightarrow> [c]
      | Reference e \<Rightarrow>
          (case substituteVariable (''${'' @ e @ ''}'') e env of
             Inr v \<Rightarrow> v
           | Inl msg \<Rightarrow> ''${'' @ e @ ''}''))"

definition expand :: "string \<Rightarrow> env \<Rightarrow> string \<Rightarrow> string" where
  "expand esc env s = concat (map (token_text esc env) (tokens s))"

text \<open>The expressions of the references of a string, in order.\<close>

definition references :: "string \<Rightarrow> string list" where
  "references s = concat (map (\<lambda>tok. case tok of Reference e \<Rightarrow> [e] | _ \<Rightarrow> []) (tokens s))"


section \<open>Properties of the conflict comparator\<close>

subsection \<open>Splitting at a one-character separator\<close>

lemma split_acc_no_sep:
  "c \<notin> set s \<Longrightarrow> split_acc [c] acc s = [rev acc @ s]"
  by (induction s arbitrary: acc) auto

lemma split_acc_first:
  "c \<notin> set a \<Longrightarrow> split_acc [c] acc (a @ c # b) = (rev acc @ a) # split_acc [c] [] b"
  by (induction a arbitrary: acc) auto

lemma hd_split_acc:
  "hd (split_acc [c] acc s) = rev acc @ takeWhile (\<lambda>x. x \<noteq> c) s"
  by (induction s arbitrary: acc) auto

lemma length_split_acc:
  "length (split_acc [c] acc s) = Suc (length (filter (\<lambda>x. x = c) s))"
  by (induction s arbitrary: acc) auto

lemma split_acc_parts:
  "c \<notin> set acc \<Longrightarrow> x \<in> set (split_acc [c] acc s) \<Longrightarrow> c \<notin> set x"
proof (induction s arbitrary: acc)
  case Nil
  then show ?case by auto
next
  case (Cons y s)
  show ?case
  proof (cases "y = c")
    case True
    with Cons.prems have "x = rev acc \<or> x \<in> set (split_acc [c] [] s)" by auto
    then show ?thesis using Cons.prems(1) Cons.IH[of "[]"] by auto
  next
    case False
    with Cons.prems have "x \<in> set (split_acc [c] (y # acc) s)" by auto
    from Cons.IH[OF _ this] False Cons.prems(1) show ?thesis by auto
  qed
qed

lemma split_parts: "x \<in> set (split [c] s) \<Longrightarrow> c \<notin> set x"
  using split_acc_parts[of c "[]" x s] by (simp add: split_def)

lemma hd_split: "hd (split [c] s) = takeWhile (\<lambda>x. x \<noteq> c) s"
  by (simp add: split_def hd_split_acc)


lemma extractHostPort_three_parts:
  assumes "h \<noteq> []" "\<not> startsWith ip ''[''" "CHR '':'' \<notin> set ip" "CHR '':'' \<notin> set h" "CHR '':'' \<notin> set c"
  shows "extractHostPort (JStr (ip @ '':'' @ h @ '':'' @ c)) = Some (ip @ '':'' @ takeWhile (\<lambda>x. x \<noteq> CHR ''/'') h)"
proof -
  have s: "split '':'' (ip @ CHR '':'' # h @ CHR '':'' # c) = [ip, h, c]"
    using assms by (simp add: split_def split_acc_first split_acc_no_sep)
  have b: "\<not> startsWith (ip @ CHR '':'' # h @ CHR '':'' # c) ''[''"
    using assms(2) by (cases ip) (auto simp: startsWith_def)
  show ?thesis using assms(1) b
    by (simp add: extractHostPort_def s Let_def hd_split)
qed


lemma extractHostPort_bracketed:
  assumes "CHR '']'' \<notin> set a"
  shows "extractHostPort (JStr (''['' @ a @ '']'' @ r)) =
     (case r of
        [] \<Rightarrow> None
      | x # q \<Rightarrow>
          if x = CHR '':'' \<and> takeWhile (\<lambda>y. y \<noteq> CHR '':'') q \<noteq> []
          then Some (''['' @ a @ '']:'' @ takeWhile (\<lambda>y. y \<noteq> CHR ''/'') (takeWhile (\<lambda>y. y \<noteq> CHR '':'') q))
          else None)"
proof -
  define S where "S = ''['' @ a @ '']'' @ r"
  have t0: "takeWhile (\<lambda>c. c \<noteq> CHR '']'') (a @ CHR '']'' # r) = a"
    using assms by (induction a) auto
  have t: "length (takeWhile (\<lambda>c. c \<noteq> CHR '']'') S) = Suc (length a)"
    by (simp add: S_def t0)
  have f: "S \<noteq> []" "startsWith S ''[''" "Suc (length a) \<noteq> length S"
    "take (Suc (length a) + 1) S = ''['' @ a @ '']''" "drop (Suc (length a) + 1) S = r"
    by (simp_all add: S_def startsWith_def)
  have "extractHostPort (JStr S) =
     (case r of
        [] \<Rightarrow> None
      | x # q \<Rightarrow>
          if x = CHR '':'' \<and> takeWhile (\<lambda>y. y \<noteq> CHR '':'') q \<noteq> []
          then Some (''['' @ a @ '']:'' @ takeWhile (\<lambda>y. y \<noteq> CHR ''/'') (takeWhile (\<lambda>y. y \<noteq> CHR '':'') q))
          else None)"
    unfolding extractHostPort_def jv.case Let_def t using f
    by (cases r) (simp_all add: hd_split, simp_all add: startsWith_def)
  then show ?thesis by (simp add: S_def)
qed

lemma includes_decompose: "str_includes s p \<Longrightarrow> \<exists>X d. s = X @ p @ d"
proof (induction s)
  case Nil
  then show ?case by simp
next
  case (Cons x s)
  show ?case
  proof (cases "startsWith (x # s) p")
    case True
    then have "x # s = [] @ p @ drop (length p) (x # s)"
      by (simp add: startsWith_def) (metis append_take_drop_id)
    then show ?thesis by blast
  next
    case False
    with Cons obtain X d where "s = X @ p @ d" by auto
    then have "x # s = (x # X) @ p @ d" by simp
    then show ?thesis by blast
  qed
qed

lemma extractHostPort_many_colons:
  assumes "\<not> startsWith s ''[''" "2 < length (filter (\<lambda>x. x = CHR '':'') s)"
  shows "extractHostPort (JStr s) = None"
  using assms by (simp add: extractHostPort_def Let_def split_def length_split_acc)

lemma extractHostPort_double_colon:
  assumes "\<not> startsWith s ''[''" "str_includes s ''::''"
  shows "extractHostPort (JStr s) = None"
proof (cases "2 < length (filter (\<lambda>x. x = CHR '':'') s)")
  case True
  with assms(1) show ?thesis by (rule extractHostPort_many_colons)
next
  case False
  from includes_decompose[OF assms(2)] obtain X d where s: "s = X @ CHR '':'' # CHR '':'' # d"
    by auto
  with False have "filter (\<lambda>x. x = CHR '':'') X = []" "filter (\<lambda>x. x = CHR '':'') d = []"
    by auto
  then have n: "CHR '':'' \<notin> set X" "CHR '':'' \<notin> set d"
    by (auto simp: filter_empty_conv)
  have p: "split '':'' s = [X, [], d]"
    unfolding s split_def using n
    by (simp add: split_acc_first split_acc_no_sep)
  show ?thesis using assms(1) by (simp add: extractHostPort_def Let_def p)
qed

lemma extractHostPort_unbracketed:
  assumes "\<not> startsWith s ''[''" "s \<noteq> []"
  shows "extractHostPort (JStr s) =
     (let parts = split '':'' s in
            if length parts = 2 then
              if parts ! 0 = [] then None
              else Some (''0.0.0.0'' @ '':'' @ takeWhile (\<lambda>y. y \<noteq> CHR ''/'') (parts ! 0))
            else if length parts = 3 then
              if parts ! 0 = [] \<and> parts ! 1 = [] then None
              else if parts ! 1 = [] then None
              else Some ((parts ! 0) @ '':'' @ takeWhile (\<lambda>y. y \<noteq> CHR ''/'') (parts ! 1))
            else None)"
  unfolding extractHostPort_def jv.case hd_split using assms by simp


lemma extractHostPort_key:
  assumes "extractHostPort (JStr s) = Some k"
  shows "\<exists>ip p. k = ip @ '':'' @ p \<and> CHR '':'' \<notin> set p \<and>
           (if startsWith s ''[''
            then \<exists>a r. s = ''['' @ a @ '']'' @ r \<and> CHR '']'' \<notin> set a \<and> ip = ''['' @ a @ '']''
            else CHR '':'' \<notin> set ip)"
proof (cases "startsWith s ''[''")
  case True
  then obtain t where t: "s = CHR ''['' # t" by (cases s) (auto simp: startsWith_def)
  have "CHR '']'' \<in> set t"
  proof (rule ccontr)
    assume "CHR '']'' \<notin> set t"
    then have "takeWhile (\<lambda>c. c \<noteq> CHR '']'') t = t" by (induction t) auto
    then have l: "length (takeWhile (\<lambda>c. c \<noteq> CHR '']'') t) = length t" by (rule arg_cong)
    from assms True show False by (simp add: extractHostPort_def Let_def t l)
  qed
  then obtain a r where ar: "t = a @ CHR '']'' # r" "CHR '']'' \<notin> set a"
    by (auto dest: split_list_first)
  then have s: "s = ''['' @ a @ '']'' @ r" by (simp add: t)
  let ?p = "\<lambda>q. takeWhile (\<lambda>y. y \<noteq> CHR ''/'') (takeWhile (\<lambda>y. y \<noteq> CHR '':'') q)"
  from assms have "extractHostPort (JStr (''['' @ a @ '']'' @ r)) = Some k" by (simp only: s)
  then obtain q where q: "r = CHR '':'' # q" "k = ''['' @ a @ '']:'' @ ?p q"
    unfolding extractHostPort_bracketed[OF ar(2), of r]
    by (cases r) (simp_all split: if_splits)
  have np: "CHR '':'' \<notin> set (?p q)"
    by (auto dest!: set_takeWhileD)
  have "k = (''['' @ a @ '']'') @ '':'' @ ?p q" using q(2) by simp
  moreover have "\<exists>a' r'. s = ''['' @ a' @ '']'' @ r' \<and> CHR '']'' \<notin> set a' \<and> ''['' @ a @ '']'' = ''['' @ a' @ '']''"
    using s ar(2) by blast
  ultimately show ?thesis using np True by (simp only: if_True) blast
next
  case False
  let ?parts = "split '':'' s"
  let ?tw = "takeWhile (\<lambda>y. y \<noteq> CHR ''/'')"
  have ne: "s \<noteq> []" using assms by (auto simp: extractHostPort_def)
  have c: "CHR '':'' \<notin> set (?parts ! i)" if "i < length ?parts" for i
    using split_parts[of "?parts ! i" "CHR '':''" s] that by simp
  have tw: "CHR '':'' \<notin> set (?tw x)" if "CHR '':'' \<notin> set x" for x
    using that by (auto dest!: set_takeWhileD)
  from assms have "length ?parts = 2 \<and> k = ''0.0.0.0'' @ '':'' @ ?tw (?parts ! 0) \<or>
     length ?parts = 3 \<and> k = (?parts ! 0) @ '':'' @ ?tw (?parts ! 1)"
    unfolding extractHostPort_unbracketed[OF False ne] Let_def
    by (simp split: if_splits)
  then show ?thesis
  proof
    assume a: "length ?parts = 2 \<and> k = ''0.0.0.0'' @ '':'' @ ?tw (?parts ! 0)"
    then have "CHR '':'' \<notin> set (?tw (?parts ! 0))" using c[of 0] tw by simp
    moreover have "CHR '':'' \<notin> set ''0.0.0.0''" by simp
    ultimately show ?thesis using a False by (simp only: if_False) blast
  next
    assume a: "length ?parts = 3 \<and> k = (?parts ! 0) @ '':'' @ ?tw (?parts ! 1)"
    then have "CHR '':'' \<notin> set (?tw (?parts ! 1))" "CHR '':'' \<notin> set (?parts ! 0)"
      using c[of 0] c[of 1] tw by simp_all
    then show ?thesis using a False by (simp only: if_False) blast
  qed
qed

subsection \<open>What the collection loop files under a binding\<close>




lemma fold_collect_volume_portMap [simp]:
  "portMap (fold (collect_volume pn sn) xs m) = portMap m"
  by (induction xs arbitrary: m) (auto simp: collect_volume_def split: option.splits)

lemma fold_collect_env_file_portMap [simp]:
  "portMap (fold (collect_env_file pn sn) xs m) = portMap m"
  by (induction xs arbitrary: m) (auto simp: collect_env_file_def)



lemma fold_network_portMap [simp]:
  "portMap (fold (\<lambda>networkName acc. acc\<lparr> networkMap := map_push (=) networkName pn (networkMap acc) \<rparr>) xs m) = portMap m"
  by (induction xs arbitrary: m) auto













text \<open>
  C2. The host-binding extraction maps \<open>[::1]:8080:80\<close> to the key \<open>[::1]:8080\<close>. In
  general a mapping \<open>[a]:h:c\<close> or \<open>[a]:h\<close>, with a host port \<open>h\<close> that is not empty, has the
  key \<open>[a]:h\<close> without the protocol suffix of \<open>h\<close>. Every key is an address, a colon and a
  port part without a colon; for a mapping that starts with a bracket the address is the
  bracketed address of the mapping, brackets included, and for any other mapping the address
  has no colon. A mapping without brackets that has more than two colons, or two colons in a
  row, has no key: neither the bare nor the bracket-stripped IPv6 address is ever a key or
  the port part of one.
\<close>

theorem extractHostPort_bracketed_ipv6:
  "extractHostPort (JStr ''[::1]:8080:80'') = Some ''[::1]:8080'' \<and>
   (CHR '']'' \<notin> set a \<and> CHR '':'' \<notin> set h \<and> h \<noteq> [] \<longrightarrow>
      extractHostPort (JStr (''['' @ a @ '']:'' @ h @ '':'' @ c)) =
        Some (''['' @ a @ '']:'' @ takeWhile (\<lambda>x. x \<noteq> CHR ''/'') h) \<and>
      extractHostPort (JStr (''['' @ a @ '']:'' @ h)) =
        Some (''['' @ a @ '']:'' @ takeWhile (\<lambda>x. x \<noteq> CHR ''/'') h)) \<and>
   (extractHostPort (JStr s) = Some k \<longrightarrow>
      (\<exists>ip p. k = ip @ '':'' @ p \<and> CHR '':'' \<notin> set p \<and>
         (if startsWith s ''[''
          then \<exists>b r. s = ''['' @ b @ '']'' @ r \<and> CHR '']'' \<notin> set b \<and> ip = ''['' @ b @ '']''
          else CHR '':'' \<notin> set ip))) \<and>
   (\<not> startsWith s ''['' \<and>
    (str_includes s ''::'' \<or> 2 < length (filter (\<lambda>x. x = CHR '':'') s)) \<longrightarrow>
      extractHostPort (JStr s) = None)"
proof -
  have A: "extractHostPort (JStr ''[::1]:8080:80'') = Some ''[::1]:8080''"
    by (simp add: extractHostPort_def split_def startsWith_def)
  have B: "extractHostPort (JStr (''['' @ a @ '']:'' @ h @ '':'' @ c)) =
        Some (''['' @ a @ '']:'' @ takeWhile (\<lambda>x. x \<noteq> CHR ''/'') h) \<and>
      extractHostPort (JStr (''['' @ a @ '']:'' @ h)) =
        Some (''['' @ a @ '']:'' @ takeWhile (\<lambda>x. x \<noteq> CHR ''/'') h)"
    if h: "CHR '']'' \<notin> set a" "CHR '':'' \<notin> set h" "h \<noteq> []"
  proof -
    have t: "takeWhile (\<lambda>y. y \<noteq> CHR '':'') (h @ CHR '':'' # c) = h"
      "takeWhile (\<lambda>y. y \<noteq> CHR '':'') h = h"
      using h(2) by (induction h) auto
    from extractHostPort_bracketed[OF h(1), of "'':'' @ h @ '':'' @ c"]
         extractHostPort_bracketed[OF h(1), of "'':'' @ h"] h(3)
    show ?thesis by (simp add: t)
  qed
  have C: "\<exists>ip p. k = ip @ '':'' @ p \<and> CHR '':'' \<notin> set p \<and>
         (if startsWith s ''[''
          then \<exists>b r. s = ''['' @ b @ '']'' @ r \<and> CHR '']'' \<notin> set b \<and> ip = ''['' @ b @ '']''
          else CHR '':'' \<notin> set ip)"
    if "extractHostPort (JStr s) = Some k"
    using that by (rule extractHostPort_key)
  have D: "extractHostPort (JStr s) = None"
    if "\<not> startsWith s ''[''" "str_includes s ''::'' \<or> 2 < length (filter (\<lambda>x. x = CHR '':'') s)"
    using that extractHostPort_double_colon extractHostPort_many_colons by blast
  from A B C D show ?thesis by blast
qed

theorem extractHostPort_bracketed_ipv6_witness:
  "extractHostPort (JStr ''[2001:db8::1]:443:443/tcp'') = Some ''[2001:db8::1]:443'' \<and>
   extractHostPort (JStr ''[2001:db8::1]:443'') = Some ''[2001:db8::1]:443'' \<and>
   startsWith ''[2001:db8::1]:443:443/tcp'' ''['' \<and>
   CHR '':'' \<notin> set ''443'' \<and>
   \<not> startsWith ''2001:db8::1:443:443'' ''['' \<and>
   str_includes ''2001:db8::1:443:443'' ''::'' \<and>
   2 < length (filter (\<lambda>x. x = CHR '':'') ''2001:db8::1:443:443'') \<and>
   extractHostPort (JStr ''2001:db8::1:443:443'') = None \<and>
   (\<exists>ip p. ''[2001:db8::1]:443'' = ip @ '':'' @ p \<and> CHR '':'' \<notin> set p \<and>
      (\<exists>b r. ''[2001:db8::1]:443:443/tcp'' = ''['' @ b @ '']'' @ r \<and> CHR '']'' \<notin> set b \<and>
             ip = ''['' @ b @ '']''))"
proof -
  note u = extractHostPort_bracketed_ipv6[of "''2001:db8::1''" "''443''" "''443/tcp''"
      "''[2001:db8::1]:443:443/tcp''" "''[2001:db8::1]:443''"]
  note t = extractHostPort_bracketed_ipv6[of "''2001:db8::1''" "''443''" "''443/tcp''"
      "''2001:db8::1:443:443''" "''none''"]
  have h: "CHR '']'' \<notin> set ''2001:db8::1''" "CHR '':'' \<notin> set ''443''" "''443'' \<noteq> []"
    "\<not> startsWith ''2001:db8::1:443:443'' ''[''" "startsWith ''[2001:db8::1]:443:443/tcp'' ''[''"
    by (simp_all add: startsWith_def)
  have i: "str_includes ''2001:db8::1:443:443'' ''::''"
    "2 < length (filter (\<lambda>x. x = CHR '':'') ''2001:db8::1:443:443'')"
    by (simp_all add: startsWith_def)
  from t h have a: "extractHostPort (JStr ''[2001:db8::1]:443:443/tcp'') = Some ''[2001:db8::1]:443''"
    "extractHostPort (JStr ''[2001:db8::1]:443'') = Some ''[2001:db8::1]:443''"
    by simp_all
  from t h i have b: "extractHostPort (JStr ''2001:db8::1:443:443'') = None" by blast
  from u a(1) h(5) have c: "\<exists>ip p. ''[2001:db8::1]:443'' = ip @ '':'' @ p \<and> CHR '':'' \<notin> set p \<and>
      (\<exists>b r. ''[2001:db8::1]:443:443/tcp'' = ''['' @ b @ '']'' @ r \<and> CHR '']'' \<notin> set b \<and>
             ip = ''['' @ b @ '']'')"
    by (simp only: if_True)
  from a b c h i show ?thesis by blast
qed




section \<open>Properties of the extends resolver\<close>

subsection \<open>Property lists\<close>

lemma map_of_obj_set: "map_of (obj_set k v r) k' = (if k' = k then Some v else map_of r k')"
  by (induction r) auto


lemma set_obj_set_subset: "set (obj_set k v r) \<subseteq> insert (k, v) (set r)"
  by (induction r) (auto split: if_splits)

lemma map_fst_obj_set:
  "map fst (obj_set k v r) = (if k \<in> fst ` set r then map fst r else map fst r @ [k])"
  by (induction r) force+

lemma keys_obj_set: "fst ` set (obj_set k v r) = insert k (fst ` set r)"
proof -
  have "set (map fst (obj_set k v r)) = insert k (set (map fst r))"
    unfolding map_fst_obj_set by auto
  then show ?thesis by simp
qed

lemma distinct_obj_set: "distinct (map fst r) \<Longrightarrow> distinct (map fst (obj_set k v r))"
  by (simp add: map_fst_obj_set)

lemma js_get_own_entries: "k \<noteq> ''length'' \<Longrightarrow> js_get v k = map_of (own_entries v) k"
  by (cases v) auto

lemma js_get_cases:
  "js_get a k = Some v \<Longrightarrow> (k, v) \<in> set (own_entries a) \<or> (\<exists>n. v = JNum n)"
  by (cases a) (auto dest: map_of_SomeD split: if_splits)

lemma merge_fields_other:
  "merge_fields r es = Inr r' \<Longrightarrow> k \<notin> fst ` set es \<Longrightarrow> map_of r' k = map_of r k"
  by (induction es arbitrary: r) (auto split: sum.splits simp: map_of_obj_set)

lemma normalized_other:
  "k \<noteq> ''depends_on'' \<Longrightarrow> map_of (normalized v) k = map_of (own_entries v) k"
  by (auto simp: normalized_def map_of_obj_set split: option.splits)

lemma normalized_keys: "fst ` set (normalized v) = fst ` set (own_entries v)"
proof (cases "js_get v ''depends_on''")
  case None
  then show ?thesis by (simp add: normalized_def)
next
  case (Some d)
  then have "map_of (own_entries v) ''depends_on'' = Some d"
    by (simp add: js_get_own_entries)
  then have "''depends_on'' \<in> fst ` set (own_entries v)"
    by (metis domI dom_map_of_conv_image_fst)
  with Some show ?thesis by (auto simp: normalized_def keys_obj_set)
qed

lemma mergeServiceConfigs_extends:
  assumes "mergeServiceConfigs rb (JObj (filter (\<lambda>e. fst e \<noteq> ''extends'') es)) = Inr r"
  shows "js_get r ''extends'' = js_get rb ''extends''"
proof -
  let ?ov = "JObj (filter (\<lambda>e. fst e \<noteq> ''extends'') es)"
  from assms obtain res where res: "merge_fields (normalized rb) (normalized ?ov) = Inr res"
    and r: "r = JObj res"
    by (auto simp: mergeServiceConfigs_def split: if_splits sum.splits)
  have "''extends'' \<notin> fst ` set (normalized ?ov)"
    by (auto simp: normalized_keys)
  from merge_fields_other[OF res this]
  have "map_of res ''extends'' = map_of (own_entries rb) ''extends''"
    by (simp add: normalized_other)
  with r show ?thesis by (simp add: js_get_own_entries)
qed

lemma resolve_not_truthy_extends:
  "resolveServiceExtends s a vis = Inr r \<Longrightarrow> extends_target r = None"
proof (induction s a vis arbitrary: r rule: resolveServiceExtends.induct)
  case (1 service allServices visited)
  show ?case
  proof (cases "extends_target service")
    case None
    with "1.prems" show ?thesis
      by (auto simp: resolveServiceExtends.simps[of service] split: if_splits)
  next
    case (Some n)
    with "1.prems" obtain ext rb where
      a: "service \<noteq> JNull" "n \<notin> set visited" "js_get allServices (to_string_opt n) = Some ext" "truthy ext"
      and rb: "resolveServiceExtends ext allServices (visited @ [n]) = Inr rb"
      and m: "mergeServiceConfigs rb (JObj (filter (\<lambda>e. fst e \<noteq> ''extends'') (own_entries service))) = Inr r"
      by (auto simp: resolveServiceExtends.simps[of service] split: if_splits option.splits sum.splits)
    from "1.IH"[OF a(1) Some a(2) a(3) _ rb] a(4) have "extends_target rb = None" by simp
    moreover from mergeServiceConfigs_extends[OF m] have "js_get r ''extends'' = js_get rb ''extends''" .
    ultimately show ?thesis by (simp add: extends_target_def)
  qed
qed

lemma resolve_no_extends:
  "resolveServiceExtends s a vis = Inr r \<Longrightarrow> no_falsy_extends s \<Longrightarrow>
   (\<And>k v. js_get a k = Some v \<Longrightarrow> no_falsy_extends v) \<Longrightarrow> js_get r ''extends'' = None"
proof (induction s a vis arbitrary: r rule: resolveServiceExtends.induct)
  case (1 service allServices visited)
  show ?case
  proof (cases "extends_target service")
    case None
    with "1.prems"(1) have "r = service"
      by (auto simp: resolveServiceExtends.simps[of service] split: if_splits)
    with None "1.prems"(2) show ?thesis
      by (auto simp: extends_target_def no_falsy_extends_def split: option.splits if_splits jv.splits)
  next
    case (Some n)
    with "1.prems"(1) obtain ext rb where
      a: "service \<noteq> JNull" "n \<notin> set visited" "js_get allServices (to_string_opt n) = Some ext" "truthy ext"
      and rb: "resolveServiceExtends ext allServices (visited @ [n]) = Inr rb"
      and m: "mergeServiceConfigs rb (JObj (filter (\<lambda>e. fst e \<noteq> ''extends'') (own_entries service))) = Inr r"
      by (auto simp: resolveServiceExtends.simps[of service] split: if_splits option.splits sum.splits)
    have "no_falsy_extends ext" using "1.prems"(3) a(3) by blast
    from "1.IH"[OF a(1) Some a(2) a(3) _ rb this "1.prems"(3)] a(4)
    have "js_get rb ''extends'' = None" by simp
    with mergeServiceConfigs_extends[OF m] show ?thesis by simp
  qed
qed

lemma resolve_services_origin:
  "resolve_services a es acc = Inr res \<Longrightarrow> e \<in> set res \<Longrightarrow>
   e \<in> set acc \<or> (\<exists>s. (fst e, s) \<in> set es \<and> resolveServiceExtends s a [] = Inr (snd e))"
proof (induction es arbitrary: acc)
  case Nil
  then show ?case by simp
next
  case (Cons x es)
  from Cons.prems(1) obtain r where r: "resolveServiceExtends (snd x) a [] = Inr r"
    and rest: "resolve_services a es (obj_set (fst x) r acc) = Inr res"
    by (auto split: sum.splits)
  from Cons.IH[OF rest Cons.prems(2)] show ?case
  proof
    assume "e \<in> set (obj_set (fst x) r acc)"
    with set_obj_set_subset[of "fst x" r acc] have "e = (fst x, r) \<or> e \<in> set acc" by auto
    with r show ?thesis by (cases x) force
  next
    assume "\<exists>s. (fst e, s) \<in> set es \<and> resolveServiceExtends s a [] = Inr (snd e)"
    then show ?thesis by auto
  qed
qed

lemma resolveAllExtends_services:
  assumes "resolveAllExtends compose = Inr out" "e \<in> set (services_of out)"
  shows "\<exists>a s. js_get compose ''services'' = Some a \<and> truthy a \<and> (fst e, s) \<in> set (own_entries a) \<and>
           resolveServiceExtends s a [] = Inr (snd e)"
proof (cases "js_get compose ''services''")
  case None
  with assms show ?thesis
    by (auto simp: resolveAllExtends_def services_of_def entries_or_empty_def split: if_splits)
next
  case (Some a)
  show ?thesis
  proof (cases "truthy a")
    case False
    with Some assms show ?thesis
      by (auto simp: resolveAllExtends_def services_of_def entries_or_empty_def split: if_splits)
  next
    case True
    with Some assms(1) obtain res where res: "resolve_services a (own_entries a) [] = Inr res"
      and out: "out = JObj (obj_set ''services'' (JObj res) (own_entries compose))"
      by (auto simp: resolveAllExtends_def split: if_splits sum.splits)
    from out have "services_of out = res"
      by (simp add: services_of_def entries_or_empty_def map_of_obj_set)
    with assms(2) resolve_services_origin[OF res, of e] Some True show ?thesis by auto
  qed
qed

text \<open>
  C7. The claim: on every document that \<open>resolveAllExtends\<close> accepts, no service of the
  output carries an \<open>extends\<close> property. As stated it fails: an \<open>extends\<close> whose value is
  falsy (here the empty string) counts as no \<open>extends\<close>, and the service is returned with
  the property still on it.
\<close>

theorem extends_absent_counterexample:
  "resolveAllExtends
     (JObj [(''services'', JObj [(''a'', JObj [(''extends'', JStr []), (''image'', JStr ''x'')])])])
   = Inr (JObj [(''services'', JObj [(''a'', JObj [(''extends'', JStr []), (''image'', JStr ''x'')])])]) \<and>
   js_get (JObj [(''extends'', JStr []), (''image'', JStr ''x'')]) ''extends'' = Some (JStr [])"
  by code_simp

text \<open>
  C7, amended. On every document that \<open>resolveAllExtends\<close> accepts, no service of the output
  has a truthy \<open>extends\<close>; and when no service of the input has a falsy \<open>extends\<close> value,
  no service of the output has an \<open>extends\<close> property at all: the property of the service
  itself is removed before its fields are merged over the resolved base.
\<close>

theorem extends_absent_after_resolution:
  assumes "resolveAllExtends compose = Inr out" "e \<in> set (services_of out)"
  shows "extends_target (snd e) = None \<and>
         (list_all (\<lambda>x. no_falsy_extends (snd x)) (services_of compose) \<longrightarrow>
            js_get (snd e) ''extends'' = None)"
proof -
  from resolveAllExtends_services[OF assms] obtain a s where
    a: "js_get compose ''services'' = Some a" "truthy a" "(fst e, s) \<in> set (own_entries a)"
    and r: "resolveServiceExtends s a [] = Inr (snd e)"
    by blast
  have so: "services_of compose = own_entries a"
    using a by (simp add: services_of_def entries_or_empty_def)
  have "js_get (snd e) ''extends'' = None"
    if h: "list_all (\<lambda>x. no_falsy_extends (snd x)) (services_of compose)"
  proof -
    have all: "no_falsy_extends v" if "js_get a k = Some v" for k v
      using js_get_cases[OF that] h so
      by (auto simp: list_all_iff no_falsy_extends_def)
    have "no_falsy_extends s" using h so a(3) by (auto simp: list_all_iff)
    from resolve_no_extends[OF r this all] show ?thesis by simp
  qed
  with resolve_not_truthy_extends[OF r] show ?thesis by blast
qed

theorem extends_absent_after_resolution_witness:
  "resolveAllExtends
     (JObj [(''services'', JObj [(''base'', JObj [(''image'', JStr ''n:20''), (''ports'', JArr [JStr ''80:80''])]),
                                 (''app'', JObj [(''extends'', JStr ''base''), (''ports'', JArr [JStr ''443:443''])])])])
   = Inr (JObj [(''services'', JObj [(''base'', JObj [(''image'', JStr ''n:20''), (''ports'', JArr [JStr ''80:80''])]),
                                 (''app'', JObj [(''image'', JStr ''n:20''), (''ports'', JArr [JStr ''80:80'', JStr ''443:443''])])])]) \<and>
   js_get (JObj [(''image'', JStr ''n:20''), (''ports'', JArr [JStr ''80:80'', JStr ''443:443''])]) ''extends'' = None"
proof -
  let ?c = "JObj [(''services'', JObj [(''base'', JObj [(''image'', JStr ''n:20''), (''ports'', JArr [JStr ''80:80''])]),
                                 (''app'', JObj [(''extends'', JStr ''base''), (''ports'', JArr [JStr ''443:443''])])])]"
  let ?app = "JObj [(''image'', JStr ''n:20''), (''ports'', JArr [JStr ''80:80'', JStr ''443:443''])]"
  let ?out = "JObj [(''services'', JObj [(''base'', JObj [(''image'', JStr ''n:20''), (''ports'', JArr [JStr ''80:80''])]),
                                 (''app'', ?app)])]"
  have h1: "resolveAllExtends ?c = Inr ?out" by code_simp
  have h2: "(''app'', ?app) \<in> set (services_of ?out)"
    by (simp add: services_of_def entries_or_empty_def)
  have h3: "list_all (\<lambda>x. no_falsy_extends (snd x)) (services_of ?c)"
    by (simp add: services_of_def entries_or_empty_def no_falsy_extends_def)
  from extends_absent_after_resolution[OF h1 h2] h3 h1 show ?thesis by simp
qed

subsection \<open>Index keys are digit strings\<close>

lemma digit_char_digit: "d < 10 \<Longrightarrow> digit_char d \<in> set ''0123456789''"
  unfolding digit_char_def by (rule nth_mem) simp

lemma show_nat_digits: "set (show_nat n) \<subseteq> set ''0123456789''"
proof (induction n rule: show_nat.induct)
  case (1 n)
  show ?case
  proof (cases "n < 10")
    case True
    then show ?thesis using digit_char_digit[of n] by (subst show_nat.simps) simp
  next
    case False
    have "n mod 10 < 10" by simp
    from digit_char_digit[OF this] 1[OF False] False show ?thesis
      by (subst show_nat.simps) simp
  qed
qed

lemma show_nat_not_name:
  assumes "\<exists>c \<in> set k. c \<notin> set ''0123456789''"
  shows "show_nat n \<noteq> k"
  using assms show_nat_digits[of n] by blast

lemma index_entries_no_name:
  assumes "\<exists>c \<in> set k. c \<notin> set ''0123456789''"
  shows "map_of (zip (map show_nat [0..<n]) xs) k = None"
proof -
  have "k \<notin> set (map show_nat [0..<n])" using show_nat_not_name[OF assms] by auto
  then have "k \<notin> fst ` set (zip (map show_nat [0..<n]) xs)"
    by (metis (no_types, lifting) in_set_zipE imageE prod.collapse)
  then show ?thesis by (simp add: map_of_eq_None_iff)
qed

lemma js_get_extends_plain:
  "js_get s ''extends'' = Some e \<Longrightarrow> is_plain_object s"
  by (cases s) (simp_all add: index_entries_no_name)

lemma extends_target_plain_object:
  "extends_target s = Some n \<Longrightarrow> is_plain_object s"
  by (auto simp: extends_target_def split: option.splits dest: js_get_extends_plain)

subsection \<open>The form of \<open>depends_on\<close> after a merge\<close>

lemma deepMerge_not_array:
  "\<not> is_array b \<Longrightarrow> \<not> is_array v \<Longrightarrow> \<not> is_array (deepMerge (Some b) v)"
  by simp

lemma normalizeDependsOn_not_array: "\<not> is_array (normalizeDependsOn d)"
  by (cases d) (auto simp: normalizeDependsOn_def)

lemma or_empty_object_not_array:
  "(\<And>d. cur = Some d \<Longrightarrow> \<not> is_array d) \<Longrightarrow> \<not> is_array (or_empty_object cur)"
  by (auto simp: or_empty_object_def split: option.splits)

lemma falsy_not_array: "\<not> truthy d \<Longrightarrow> \<not> is_array d"
  by (cases d) auto

lemma normalized_map_of_dep:
  "map_of (normalized v) ''depends_on'' = Some d \<Longrightarrow> \<not> is_array d"
  by (auto simp: normalized_def map_of_obj_set normalizeDependsOn_not_array js_get_own_entries
      falsy_not_array split: option.splits if_splits)

lemma distinct_normalized:
  "distinct (map fst (own_entries v)) \<Longrightarrow> distinct (map fst (normalized v))"
  by (auto simp: normalized_def distinct_obj_set split: option.splits)

lemma normalized_entry_dep:
  assumes "distinct (map fst (own_entries v))" "(''depends_on'', d) \<in> set (normalized v)"
  shows "\<not> is_array d"
proof -
  from assms have "map_of (normalized v) ''depends_on'' = Some d"
    by (simp add: distinct_normalized)
  then show ?thesis by (rule normalized_map_of_dep)
qed

lemma merge_fields_dep:
  "merge_fields r es = Inr r' \<Longrightarrow>
   (\<And>d. map_of r ''depends_on'' = Some d \<Longrightarrow> \<not> is_array d) \<Longrightarrow>
   (\<And>d. (''depends_on'', d) \<in> set es \<Longrightarrow> \<not> is_array d) \<Longrightarrow>
   map_of r' ''depends_on'' = Some d' \<Longrightarrow> \<not> is_array d'"
proof (induction es arbitrary: r)
  case Nil
  then show ?case by simp
next
  case (Cons e es)
  from Cons.prems(1) obtain nv where
    nv: "merge_field_value (fst e) (map_of r (fst e)) (snd e) = Inr nv"
    and rest: "merge_fields (obj_set (fst e) nv r) es = Inr r'"
    by (auto split: sum.splits)
  have "\<not> is_array d" if "map_of (obj_set (fst e) nv r) ''depends_on'' = Some d" for d
  proof (cases "fst e = ''depends_on''")
    case True
    have "\<not> is_array (snd e)" using Cons.prems(3)[of "snd e"] True by (cases e) auto
    moreover have "\<not> is_array (or_empty_object (map_of r ''depends_on''))"
      using Cons.prems(2) by (rule or_empty_object_not_array)
    ultimately have "\<not> is_array nv"
      using nv True deepMerge_not_array by (auto simp: merge_field_value_def merge_strategy_def)
    with that True show ?thesis by (simp add: map_of_obj_set)
  next
    case False
    with that Cons.prems(2) show ?thesis by (simp add: map_of_obj_set)
  qed
  from Cons.IH[OF rest this _ Cons.prems(4)] Cons.prems(3) show ?case by simp
qed

lemma js_get_name_plain:
  assumes "js_get s k = Some e" "k \<noteq> ''length''" "\<exists>c \<in> set k. c \<notin> set ''0123456789''"
  shows "is_plain_object s"
  using assms by (cases s) (simp_all add: index_entries_no_name)

lemma wf_js_get:
  assumes "wf_jv v" "js_get v k = Some x"
  shows "wf_jv x"
proof (cases v)
  case (JObj kvs)
  with assms have "(k, x) \<in> set kvs" by (auto dest: map_of_SomeD)
  with assms(1) JObj show ?thesis by (auto simp: list_all_iff)
next
  case (JArr xs)
  show ?thesis
  proof (cases "k = ''length''")
    case True
    with assms JArr show ?thesis by auto
  next
    case False
    with assms JArr have "(k, x) \<in> set (zip (map show_nat [0..<length xs]) xs)"
      by (auto dest: map_of_SomeD)
    then have "x \<in> set xs" by (rule set_zip_rightD)
    with assms(1) JArr show ?thesis by (auto simp: list_all_iff)
  qed
next
  case (JStr s)
  show ?thesis
  proof (cases "k = ''length''")
    case True
    with assms JStr show ?thesis by auto
  next
    case False
    with assms JStr have "(k, x) \<in> set (zip (map show_nat [0..<length s]) (map (\<lambda>c. JStr [c]) s))"
      by (auto dest: map_of_SomeD)
    then have "x \<in> set (map (\<lambda>c. JStr [c]) s)" by (rule set_zip_rightD)
    then show ?thesis by auto
  qed
qed (use assms in auto)

lemma wf_own_entries:
  assumes "wf_jv v" "(k, x) \<in> set (own_entries v)"
  shows "wf_jv x"
proof (cases v)
  case (JObj kvs)
  with assms show ?thesis by (auto simp: list_all_iff)
next
  case (JArr xs)
  with assms have "x \<in> set xs" by (auto dest: set_zip_rightD)
  with assms(1) JArr show ?thesis by (auto simp: list_all_iff)
next
  case (JStr s)
  with assms have "x \<in> set (map (\<lambda>c. JStr [c]) s)" by (auto dest: set_zip_rightD)
  then show ?thesis by auto
qed (use assms in auto)

lemma wf_plain_distinct:
  "wf_jv s \<Longrightarrow> is_plain_object s \<Longrightarrow> distinct (map fst (own_entries s))"
  by (cases s) auto

lemma resolve_dep_not_array:
  assumes "resolveServiceExtends s a vis = Inr r" "extends_target s = Some n"
    "distinct (map fst (own_entries s))" "js_get r ''depends_on'' = Some d"
  shows "\<not> is_array d"
proof -
  let ?ov = "JObj (filter (\<lambda>e. fst e \<noteq> ''extends'') (own_entries s))"
  from assms(1,2) obtain rb where
    m: "mergeServiceConfigs rb ?ov = Inr r"
    by (auto simp: resolveServiceExtends.simps[of s] split: if_splits option.splits sum.splits)
  then obtain res where res: "merge_fields (normalized rb) (normalized ?ov) = Inr res"
    and r: "r = JObj res"
    by (auto simp: mergeServiceConfigs_def split: if_splits sum.splits)
  have d: "distinct (map fst (own_entries ?ov))"
    using assms(3) by (simp add: distinct_map_filter)
  from assms(4) r have "map_of res ''depends_on'' = Some d" by simp
  from merge_fields_dep[OF res normalized_map_of_dep normalized_entry_dep[OF d] this]
  show ?thesis by simp
qed

lemma resolve_unchanged:
  "resolveServiceExtends s a vis = Inr r \<Longrightarrow> extends_target s = None \<Longrightarrow> r = s"
  by (auto simp: resolveServiceExtends.simps[of s] split: if_splits)

text \<open>
  C1. The claim: on every document that \<open>resolveAllExtends\<close> accepts, every service of the
  output with a \<open>depends_on\<close> has it in the long mapping form, services without \<open>extends\<close>
  included. As stated it fails: a service without \<open>extends\<close> is returned unchanged, so a
  \<open>depends_on\<close> in the short array form stays an array.
\<close>

theorem depends_on_form_counterexample:
  "resolveAllExtends
     (JObj [(''services'',
        JObj [(''web'', JObj [(''image'', JStr ''nginx''), (''depends_on'', JArr [JStr ''db''])]),
              (''db'', JObj [(''image'', JStr ''postgres'')])])])
   = Inr (JObj [(''services'',
        JObj [(''web'', JObj [(''image'', JStr ''nginx''), (''depends_on'', JArr [JStr ''db''])]),
              (''db'', JObj [(''image'', JStr ''postgres'')])])]) \<and>
   js_get (JObj [(''image'', JStr ''nginx''), (''depends_on'', JArr [JStr ''db''])]) ''depends_on''
     = Some (JArr [JStr ''db''])"
  by code_simp

text \<open>
  C1, amended. On every well-formed document that \<open>resolveAllExtends\<close> accepts, every service
  of the output is the resolution of the input service of the same name; a service declared
  without \<open>extends\<close> is returned unchanged, and a service declared with \<open>extends\<close> never has
  its \<open>depends_on\<close> in the short array form.
\<close>

theorem depends_on_form_after_resolution:
  assumes "resolveAllExtends compose = Inr out" "wf_jv compose" "e \<in> set (services_of out)"
  shows "\<exists>s. (fst e, s) \<in> set (services_of compose) \<and>
             (extends_target s = None \<longrightarrow> snd e = s) \<and>
             (extends_target s \<noteq> None \<longrightarrow>
                (\<forall>d. js_get (snd e) ''depends_on'' = Some d \<longrightarrow> \<not> is_array d))"
proof -
  from resolveAllExtends_services[OF assms(1,3)] obtain a s where
    a: "js_get compose ''services'' = Some a" "truthy a" "(fst e, s) \<in> set (own_entries a)"
    and r: "resolveServiceExtends s a [] = Inr (snd e)"
    by blast
  have so: "services_of compose = own_entries a"
    using a by (simp add: services_of_def entries_or_empty_def)
  have wfs: "wf_jv s" using wf_own_entries[OF wf_js_get[OF assms(2) a(1)] a(3)] .
  have "\<not> is_array d" if "extends_target s \<noteq> None" "js_get (snd e) ''depends_on'' = Some d" for d
  proof -
    from that(1) obtain n where n: "extends_target s = Some n" by auto
    from wf_plain_distinct[OF wfs extends_target_plain_object[OF n]]
    have "distinct (map fst (own_entries s))" .
    from resolve_dep_not_array[OF r n this that(2)] show ?thesis .
  qed
  with resolve_unchanged[OF r] so a(3) show ?thesis by auto
qed

theorem depends_on_form_after_resolution_witness:
  "resolveAllExtends
     (JObj [(''services'',
        JObj [(''base'', JObj [(''image'', JStr ''n:20''), (''depends_on'', JArr [JStr ''db''])]),
              (''app'', JObj [(''extends'', JStr ''base''), (''depends_on'', JArr [JStr ''redis''])])])])
   = Inr (JObj [(''services'',
        JObj [(''base'', JObj [(''image'', JStr ''n:20''), (''depends_on'', JArr [JStr ''db''])]),
              (''app'', JObj [(''image'', JStr ''n:20''),
                              (''depends_on'', JObj [(''db'', service_started),
                                                     (''redis'', service_started)])])])]) \<and>
   wf_jv (JObj [(''services'',
        JObj [(''base'', JObj [(''image'', JStr ''n:20''), (''depends_on'', JArr [JStr ''db''])]),
              (''app'', JObj [(''extends'', JStr ''base''), (''depends_on'', JArr [JStr ''redis''])])])]) \<and>
   extends_target (JObj [(''extends'', JStr ''base''), (''depends_on'', JArr [JStr ''redis''])]) \<noteq> None \<and>
   \<not> is_array (JObj [(''db'', service_started), (''redis'', service_started)])"
proof -
  let ?c = "JObj [(''services'',
        JObj [(''base'', JObj [(''image'', JStr ''n:20''), (''depends_on'', JArr [JStr ''db''])]),
              (''app'', JObj [(''extends'', JStr ''base''), (''depends_on'', JArr [JStr ''redis''])])])]"
  let ?dep = "JObj [(''db'', service_started), (''redis'', service_started)]"
  let ?app = "JObj [(''image'', JStr ''n:20''), (''depends_on'', ?dep)]"
  let ?out = "JObj [(''services'',
        JObj [(''base'', JObj [(''image'', JStr ''n:20''), (''depends_on'', JArr [JStr ''db''])]),
              (''app'', ?app)])]"
  have h1: "resolveAllExtends ?c = Inr ?out" by code_simp
  have h2: "wf_jv ?c" by simp
  have h3: "(''app'', ?app) \<in> set (services_of ?out)"
    by (simp add: services_of_def entries_or_empty_def)
  from depends_on_form_after_resolution[OF h1 h2 h3] obtain s where
    s: "(''app'', s) \<in> set (services_of ?c)"
       "extends_target s \<noteq> None \<longrightarrow> (\<forall>d. js_get ?app ''depends_on'' = Some d \<longrightarrow> \<not> is_array d)"
    by auto
  from s(1) have e: "s = JObj [(''extends'', JStr ''base''), (''depends_on'', JArr [JStr ''redis''])]"
    by (simp add: services_of_def entries_or_empty_def)
  then have t: "extends_target s \<noteq> None" by (simp add: extends_target_def)
  with s(2) have "\<not> is_array ?dep" by simp
  with t e h1 h2 show ?thesis by blast
qed

subsection \<open>Merging a service with itself\<close>






lemma distinct_spread2:
  "distinct (map fst a) \<Longrightarrow> distinct (map fst (spread2 a b))"
  unfolding spread2_def
  by (induction b arbitrary: a) (auto simp: distinct_obj_set split: prod.splits)

lemma set_spread2:
  "set (spread2 a b) \<subseteq> set a \<union> set b"
  unfolding spread2_def
proof (induction b arbitrary: a)
  case Nil
  then show ?case by simp
next
  case (Cons x b)
  obtain k v where x: "x = (k, v)" by (cases x)
  from Cons[of "obj_set k v a"] set_obj_set_subset[of k v a] x show ?case by auto
qed








section \<open>Cycles in the extends and include graphs\<close>








section \<open>Precedence among sibling includes\<close>

subsection \<open>Index keys are distinct\<close>

lemma show_nat_nonempty: "show_nat n \<noteq> []"
  by (subst show_nat.simps) simp

lemma digit_char_inj:
  assumes "a < 10" "b < 10" "digit_char a = digit_char b"
  shows "a = b"
proof -
  have d: "distinct ''0123456789''" by simp
  have l: "length ''0123456789'' = 10" by simp
  from assms show ?thesis
    unfolding digit_char_def using nth_eq_iff_index_eq[OF d, of a b] l by simp
qed

lemma show_nat_inj: "show_nat m = show_nat n \<Longrightarrow> m = n"
proof (induction n arbitrary: m rule: show_nat.induct)
  case (1 n)
  show ?case
  proof (cases "n < 10")
    case True
    then have n: "show_nat n = [digit_char n]" by (subst show_nat.simps) simp
    show ?thesis
    proof (cases "m < 10")
      case mt: True
      then have "show_nat m = [digit_char m]" by (subst show_nat.simps) simp
      with n "1.prems" have "digit_char m = digit_char n" by simp
      with mt True show ?thesis by (rule digit_char_inj)
    next
      case False
      then have "show_nat m = show_nat (m div 10) @ [digit_char (m mod 10)]"
        by (subst show_nat.simps) simp
      with n "1.prems" show_nat_nonempty[of "m div 10"] show ?thesis by (cases "show_nat (m div 10)") auto
    qed
  next
    case False
    then have n: "show_nat n = show_nat (n div 10) @ [digit_char (n mod 10)]"
      by (subst show_nat.simps) simp
    show ?thesis
    proof (cases "m < 10")
      case True
      then have "show_nat m = [digit_char m]" by (subst show_nat.simps) simp
      with n "1.prems" show_nat_nonempty[of "n div 10"] show ?thesis by (cases "show_nat (n div 10)") auto
    next
      case mf: False
      then have "show_nat m = show_nat (m div 10) @ [digit_char (m mod 10)]"
        by (subst show_nat.simps) simp
      with n "1.prems" have e: "show_nat (m div 10) = show_nat (n div 10)"
        "digit_char (m mod 10) = digit_char (n mod 10)" by simp_all
      from "1.IH"[OF False e(1)] have a: "m div 10 = n div 10" .
      have b: "m mod 10 = n mod 10" by (rule digit_char_inj[OF _ _ e(2)]) simp_all
      from a b show ?thesis by (metis div_mult_mod_eq)
    qed
  qed
qed

lemma distinct_index_keys: "distinct (map show_nat [0..<n])"
  by (simp add: distinct_map inj_on_def show_nat_inj)

lemma wf_distinct_entries: "wf_jv v \<Longrightarrow> distinct (map fst (own_entries v))"
  by (cases v) (simp_all add: distinct_index_keys)

lemma wf_entries_or_empty:
  assumes "wf_opt x"
  shows "distinct (map fst (entries_or_empty x))" "\<forall>e \<in> set (entries_or_empty x). wf_jv (snd e)"
  using assms wf_distinct_entries wf_own_entries
  by (auto simp: entries_or_empty_def wf_opt_def split: option.splits)

subsection \<open>One merge under the running result\<close>

lemma spread2_Cons: "spread2 a (e # b) = spread2 (obj_set (fst e) (snd e) a) b"
  by (cases e) (simp add: spread2_def)

lemma map_of_spread2_other:
  "k \<notin> fst ` set b \<Longrightarrow> map_of (spread2 a b) k = map_of a k"
  by (induction b arbitrary: a) (auto simp: spread2_Cons map_of_obj_set spread2_def)

lemma map_of_spread2_own:
  "distinct (map fst b) \<Longrightarrow> map_of b k = Some v \<Longrightarrow> map_of (spread2 a b) k = Some v"
proof (induction b arbitrary: a)
  case Nil
  then show ?case by simp
next
  case (Cons e b)
  show ?case
  proof (cases "fst e = k")
    case True
    with Cons.prems have "k \<notin> fst ` set b" "snd e = v" by (cases e; auto)+
    with True show ?thesis
      by (simp add: spread2_Cons map_of_spread2_other map_of_obj_set)
  next
    case False
    with Cons.prems have "map_of b k = Some v" by (cases e) auto
    with Cons.IH Cons.prems(1) show ?thesis by (simp add: spread2_Cons)
  qed
qed

lemma merge_top_level_other:
  "k \<notin> fst ` set es \<Longrightarrow> map_of (merge_top_level r es) k = map_of r k"
  by (induction es arbitrary: r) (auto simp: map_of_obj_set)

lemma merge_top_level_own:
  "distinct (map fst es) \<Longrightarrow> (k, v) \<in> set es \<Longrightarrow>
   map_of (merge_top_level r es) k = Some (merge_top_value k (map_of r k) v)"
proof (induction es arbitrary: r)
  case Nil
  then show ?case by simp
next
  case (Cons e es)
  show ?case
  proof (cases "e = (k, v)")
    case True
    with Cons.prems(1) have "k \<notin> fst ` set es" by auto
    with True show ?thesis by (simp add: merge_top_level_other map_of_obj_set)
  next
    case False
    with Cons.prems have in_es: "(k, v) \<in> set es" by auto
    then have "k \<in> fst ` set es" by force
    with Cons.prems(1) have ne: "fst e \<noteq> k" by auto
    from Cons.IH[OF _ in_es] Cons.prems(1) ne show ?thesis by (simp add: map_of_obj_set)
  qed
qed

lemma distinct_merge_top_level:
  "distinct (map fst r) \<Longrightarrow> distinct (map fst (merge_top_level r es))"
  by (induction es arbitrary: r) (auto simp: distinct_obj_set)


lemma reserved_props:
  assumes "coll \<in> set reserved_collections"
  shows "coll \<noteq> ''name''" "coll \<noteq> ''length''" "coll \<noteq> ''include''"
    "\<exists>c \<in> set coll. c \<notin> set ''0123456789''"
proof -
  from assms have c: "coll = ''services'' \<or> coll = ''networks'' \<or> coll = ''volumes'' \<or>
      coll = ''secrets'' \<or> coll = ''configs''"
    by (simp add: reserved_collections_def)
  then show "coll \<noteq> ''name''" "coll \<noteq> ''length''" "coll \<noteq> ''include''" by auto
  have "CHR ''s'' \<in> set coll" using c by auto
  then show "\<exists>c \<in> set coll. c \<notin> set ''0123456789''" by (intro bexI[of _ "CHR ''s''"]) simp_all
qed


lemma map_of_spread2:
  assumes "distinct (map fst b)"
  shows "map_of (spread2 a b) k = (case map_of b k of Some v \<Rightarrow> Some v | None \<Rightarrow> map_of a k)"
proof (cases "map_of b k")
  case None
  then have "k \<notin> fst ` set b" by (simp add: map_of_eq_None_iff)
  with None show ?thesis by (simp add: map_of_spread2_other)
next
  case (Some v)
  with assms show ?thesis by (simp add: map_of_spread2_own)
qed

lemma wf_spread2:
  assumes "distinct (map fst a)" "\<forall>e \<in> set a. wf_jv (snd e)" "\<forall>e \<in> set b. wf_jv (snd e)"
  shows "wf_jv (JObj (spread2 a b))"
  using assms distinct_spread2[of a b] set_spread2[of a b]
  by (auto simp: list_all_iff)

lemma wf_obj_set:
  assumes "wf_jv (JObj r)" "wf_jv v"
  shows "wf_jv (JObj (obj_set k v r))"
  using assms set_obj_set_subset[of k v r]
  by (auto simp: list_all_iff distinct_obj_set)

lemma wf_map_of:
  assumes "wf_jv (JObj r)"
  shows "wf_opt (map_of r k)"
  using assms by (auto simp: wf_opt_def list_all_iff split: option.splits dest!: map_of_SomeD)

lemma wf_merge_top_value:
  assumes "wf_opt cur" "wf_jv v"
  shows "wf_jv (merge_top_value key cur v)"
proof -
  have "wf_opt (Some v)" using assms(2) by (simp add: wf_opt_def)
  from wf_entries_or_empty[OF assms(1)] wf_entries_or_empty[OF this]
  have "wf_jv (JObj (spread2 (entries_or_empty cur) (entries_or_empty (Some v))))"
    by (intro wf_spread2)
  with assms(2) show ?thesis unfolding merge_top_value_def by simp
qed

lemma wf_merge_top_level:
  assumes "wf_jv (JObj r)" "\<forall>e \<in> set es. wf_jv (snd e)"
  shows "wf_jv (JObj (merge_top_level r es))"
  using assms
proof (induction es arbitrary: r)
  case Nil
  then show ?case by simp
next
  case (Cons e es)
  have "wf_jv (merge_top_value (fst e) (map_of r (fst e)) (snd e))"
    using wf_map_of[OF Cons.prems(1)] Cons.prems(2) by (intro wf_merge_top_value) auto
  from wf_obj_set[OF Cons.prems(1) this] Cons.IH Cons.prems(2) show ?case by simp
qed

lemma wf_mergeComposeFiles:
  assumes "wf_opt d" "wf_jv (JObj m)"
  shows "wf_jv (mergeComposeFiles d (Some (JObj m)))" "is_plain_object (mergeComposeFiles d (Some (JObj m)))"
proof -
  show "is_plain_object (mergeComposeFiles d (Some (JObj m)))"
    by (simp add: mergeComposeFiles_def)
  show "wf_jv (mergeComposeFiles d (Some (JObj m)))"
  proof (cases "truthy_opt d")
    case False
    with assms(2) show ?thesis by (simp add: mergeComposeFiles_def)
  next
    case True
    then obtain v where v: "d = Some v" by (cases d) auto
    with assms(1) have wv: "wf_jv v" by (simp add: wf_opt_def)
    have "wf_jv (JObj (own_entries v))"
      using wf_distinct_entries[OF wv] wf_own_entries[OF wv] by (auto simp: list_all_iff)
    moreover have "\<forall>e \<in> set m. wf_jv (snd e)" using assms(2) by (auto simp: list_all_iff)
    ultimately have "wf_jv (JObj (merge_top_level (own_entries v) m))" by (rule wf_merge_top_level)
    with True v show ?thesis by (simp add: mergeComposeFiles_def)
  qed
qed

lemma reserved_not_index:
  assumes "coll \<in> set reserved_collections"
  shows "js_get d coll = map_of (own_entries d) coll"
  using reserved_props(2)[OF assms] by (rule js_get_own_entries)

lemma collection_entry_falsy:
  assumes "\<not> truthy_opt d" "coll \<in> set reserved_collections"
  shows "collection_entry d coll name = None"
proof (cases d)
  case None
  then show ?thesis by (simp add: collection_entry_def)
next
  case (Some v)
  with assms(1) have "own_entries v = []" by (cases v) auto
  with Some show ?thesis
    by (simp add: collection_entry_def reserved_not_index[OF assms(2)] entries_or_empty_def)
qed

lemma merge_entry:
  assumes d: "wf_opt d" and m: "wf_jv (JObj m)" and coll: "coll \<in> set reserved_collections"
  shows "collection_entry (Some (mergeComposeFiles d (Some (JObj m)))) coll name =
           (case collection_entry (Some (JObj m)) coll name of
              Some v \<Rightarrow> Some v
            | None \<Rightarrow> collection_entry d coll name)"
proof (cases "truthy_opt d")
  case False
  from collection_entry_falsy[OF False coll] False show ?thesis
    by (simp add: mergeComposeFiles_def split: option.splits)
next
  case True
  then obtain v where v: "d = Some v" by (cases d) auto
  let ?r = "merge_top_level (own_entries v) m"
  have mg: "mergeComposeFiles (Some v) (Some (JObj m)) = JObj ?r"
    using True v by (simp add: mergeComposeFiles_def)
  have dm: "distinct (map fst m)" using m by simp
  have bv: "js_get v coll = map_of (own_entries v) coll" by (rule reserved_not_index[OF coll])
  show ?thesis
  proof (cases "map_of m coll")
    case None
    then have "coll \<notin> fst ` set m" by (simp add: map_of_eq_None_iff)
    then have "map_of ?r coll = map_of (own_entries v) coll" by (rule merge_top_level_other)
    with None v bv show ?thesis
      by (simp add: collection_entry_def mg entries_or_empty_def)
  next
    case (Some cm)
    then have "(coll, cm) \<in> set m" by (rule map_of_SomeD)
    from merge_top_level_own[OF dm this, of "own_entries v"] reserved_props(1)[OF coll] coll
    have a: "map_of ?r coll =
        Some (JObj (spread2 (entries_or_empty (map_of (own_entries v) coll)) (entries_or_empty (Some cm))))"
      by (simp add: merge_top_value_def)
    have "wf_opt (Some cm)" using wf_map_of[OF m, of coll] Some by simp
    from wf_entries_or_empty(1)[OF this]
    have b: "map_of (spread2 (entries_or_empty (map_of (own_entries v) coll)) (entries_or_empty (Some cm))) name =
        (case map_of (entries_or_empty (Some cm)) name of Some x \<Rightarrow> Some x
         | None \<Rightarrow> map_of (entries_or_empty (map_of (own_entries v) coll)) name)"
      by (rule map_of_spread2)
    have c: "entries_or_empty (Some (JObj xs)) = xs" for xs
      by (simp add: entries_or_empty_def)
    show ?thesis
      using Some v bv by (simp add: collection_entry_def mg a b c split: option.splits)
  qed
qed

subsection \<open>The loop over the include entries\<close>

lemma process_step:
  assumes "truthy merged"
  shows "process_includes yl fm cur nv (spec # rest) merged =
     (case included_document yl fm cur nv spec of
        Inl e \<Rightarrow> Inl e
      | Inr d \<Rightarrow> process_includes yl fm cur nv rest (mergeComposeFiles d (Some merged)))"
  using assms unfolding process_includes.simps(2) included_document_def
  by (auto simp: Let_def mergeComposeFiles_def split: jv.splits option.splits sum.splits)

lemma wf_without_include:
  assumes "wf_jv c"
  shows "wf_jv (JObj (filter (\<lambda>e. fst e \<noteq> ''include'') (own_entries c)))"
  using wf_distinct_entries[OF assms] wf_own_entries[OF assms]
  by (auto simp: list_all_iff distinct_map_filter)

lemma resolveIncludes_wf:
  "(\<forall>t d. yl t = Inr d \<longrightarrow> wf_opt d) \<Longrightarrow> wf_opt compose \<Longrightarrow>
     resolveIncludes yl fm compose cur vis = Inr r \<Longrightarrow> wf_opt r"
  "(\<forall>t d. yl t = Inr d \<longrightarrow> wf_opt d) \<Longrightarrow> wf_jv merged \<Longrightarrow> is_plain_object merged \<Longrightarrow>
     process_includes yl fm cur nv incs merged = Inr r' \<Longrightarrow> wf_jv r' \<and> is_plain_object r'"
proof (induction yl fm compose cur vis and yl fm cur nv incs merged arbitrary: r and r'
       rule: resolveIncludes_process_includes.induct)
  case (1 yl fileMap compose currentFile visited)
  show ?case
  proof (cases compose)
    case None
    with "1.prems" show ?thesis by (simp add: resolveIncludes.simps wf_opt_def)
  next
    case (Some c)
    show ?thesis
    proof (cases "\<not> truthy c \<or> \<not> truthy_opt (js_get c ''include'')")
      case True
      with "1.prems" Some show ?thesis by (auto simp: resolveIncludes.simps)
    next
      case False
      let ?m = "JObj (filter (\<lambda>e. fst e \<noteq> ''include'') (own_entries c))"
      from "1.prems"(3) Some False obtain merged where
        n: "normalizePath currentFile \<notin> set visited" and
        p: "process_includes yl fileMap currentFile (visited @ [normalizePath currentFile])
              (include_list (the (js_get c ''include''))) ?m = Inr merged" and
        r: "r = Some merged"
        by (auto simp: resolveIncludes.simps Let_def split: if_splits sum.splits)
      have "wf_jv ?m" using "1.prems"(2) Some by (intro wf_without_include) (simp add: wf_opt_def)
      from "1.IH"[OF Some False refl n "1.prems"(1) this _ p] r show ?thesis
        by (simp add: wf_opt_def)
    qed
  qed
next
  case (2 yl fileMap currentFile newVisited merged)
  then show ?case by simp
next
  case (3 yl fileMap currentFile newVisited includeSpec rest merged)
  from "3.prems"(3) have tr: "truthy merged" by (cases merged) auto
  from "3.prems"(3) obtain m where m: "merged = JObj m" by (cases merged) auto
  show ?case
  proof (cases "includeSpec \<noteq> JNull \<and> \<not> truthy_opt (include_path includeSpec)")
    case True
    with "3.prems"(4) have "process_includes yl fileMap currentFile newVisited rest merged = Inr r'"
      by simp
    from "3.IH"(1)[OF _ _ "3.prems"(1,2,3) this] True show ?thesis by simp
  next
    case False
    with "3.prems"(4) obtain p x2 b ba where
      f: "includeSpec \<noteq> JNull" "\<not> \<not> truthy_opt (include_path includeSpec)"
         "the (include_path includeSpec) = JStr p"
         "resolvePath currentFile p \<notin> set newVisited"
         "map_of fileMap (resolvePath currentFile p) = Some x2" "x2 \<noteq> []" "yl x2 = Inr b"
         "resolveIncludes yl fileMap b (resolvePath currentFile p) newVisited = Inr ba"
         "process_includes yl fileMap currentFile newVisited rest
            (mergeComposeFiles ba (Some merged)) = Inr r'"
      by (auto simp: Let_def split: if_splits jv.splits option.splits sum.splits)
    have wb: "wf_opt b" using "3.prems"(1) f(7) by blast
    from "3.IH"(2)[OF f(1,2,3) refl f(4,5,6,7) "3.prems"(1) wb f(8)] have wba: "wf_opt ba" .
    from wf_mergeComposeFiles[OF wba, of m] "3.prems"(2) m
    have w: "wf_jv (mergeComposeFiles ba (Some merged))"
       "is_plain_object (mergeComposeFiles ba (Some merged))" by simp_all
    from "3.IH"(3)[OF f(1,2,3) refl f(4,5,6,7,8) "3.prems"(1) w f(9)] show ?thesis .
  qed
qed

lemma included_document_wf:
  assumes "\<forall>t d. yl t = Inr d \<longrightarrow> wf_opt d" "included_document yl fm cur nv spec = Inr d"
  shows "wf_opt d"
proof (cases "\<not> truthy_opt (include_path spec)")
  case True
  with assms(2) show ?thesis
    by (auto simp: included_document_def wf_opt_def split: if_splits)
next
  case False
  with assms(2) obtain p x2 b where
    "yl x2 = Inr b" "resolveIncludes yl fm b (resolvePath cur p) nv = Inr d"
    by (auto simp: included_document_def Let_def split: if_splits jv.splits option.splits sum.splits)
  with assms(1) resolveIncludes_wf(1)[of yl b fm "resolvePath cur p" nv d] show ?thesis by blast
qed

lemma first_defined_merge:
  "first_defined ((case a of Some v \<Rightarrow> Some v | None \<Rightarrow> b) # xs) = first_defined (a # b # xs)"
  by (cases a) auto

lemma first_defined_nth:
  assumes "i < length xs" "xs ! i = Some v" "\<forall>k<i. xs ! k = None"
  shows "first_defined xs = Some v"
  using assms
proof (induction xs arbitrary: i)
  case Nil
  then show ?case by simp
next
  case (Cons x xs)
  show ?case
  proof (cases i)
    case 0
    with Cons.prems show ?thesis by simp
  next
    case (Suc j)
    with Cons.prems have "x = None" by auto
    moreover have "first_defined xs = Some v"
      using Cons.prems Suc by (intro Cons.IH[of j]) auto
    ultimately show ?thesis by simp
  qed
qed

lemma first_defined_none: "(\<forall>x \<in> set xs. x = None) \<Longrightarrow> first_defined xs = None"
  by (induction xs) auto

lemma process_includes_fold:
  assumes yl: "\<forall>t d. yl t = Inr d \<longrightarrow> wf_opt d" and coll: "coll \<in> set reserved_collections"
  shows "wf_jv merged \<Longrightarrow> is_plain_object merged \<Longrightarrow>
     map (included_document yl fm cur nv) specs = map Inr ds \<Longrightarrow>
     \<exists>R. process_includes yl fm cur nv specs merged = Inr R \<and>
         collection_entry (Some R) coll name =
           first_defined (collection_entry (Some merged) coll name #
                          map (\<lambda>d. collection_entry d coll name) ds)"
proof (induction specs arbitrary: merged ds)
  case Nil
  then show ?case by (cases "collection_entry (Some merged) coll name") auto
next
  case (Cons spec rest)
  from Cons.prems(3) obtain d ds' where ds: "ds = d # ds'"
    "included_document yl fm cur nv spec = Inr d"
    "map (included_document yl fm cur nv) rest = map Inr ds'"
    by (cases ds) auto
  from Cons.prems(2) obtain m where m: "merged = JObj m" by (cases merged) auto
  have wd: "wf_opt d" using yl ds(2) by (rule included_document_wf)
  from wf_mergeComposeFiles[OF wd, of m] Cons.prems(1) m
  have w: "wf_jv (mergeComposeFiles d (Some merged))"
     "is_plain_object (mergeComposeFiles d (Some merged))" by simp_all
  from Cons.IH[OF w ds(3)] obtain R where
    R: "process_includes yl fm cur nv rest (mergeComposeFiles d (Some merged)) = Inr R"
       "collection_entry (Some R) coll name =
           first_defined (collection_entry (Some (mergeComposeFiles d (Some merged))) coll name #
                          map (\<lambda>d. collection_entry d coll name) ds')"
    by blast
  have tr: "truthy merged" using m by simp
  have p: "process_includes yl fm cur nv (spec # rest) merged = Inr R"
    unfolding process_step[OF tr] using ds(2) R(1) by simp
  have e: "collection_entry (Some (mergeComposeFiles d (Some merged))) coll name =
           (case collection_entry (Some merged) coll name of
              Some v \<Rightarrow> Some v
            | None \<Rightarrow> collection_entry d coll name)"
    using merge_entry[OF wd _ coll, of m name] Cons.prems(1) m by simp
  from p R(2) show ?case unfolding e first_defined_merge ds(1) by simp
qed

lemma collection_entry_without_include:
  assumes "coll \<in> set reserved_collections"
  shows "collection_entry (Some (JObj (filter (\<lambda>e. fst e \<noteq> ''include'') kvs))) coll name =
         collection_entry (Some (JObj kvs)) coll name"
proof -
  have "map_of (filter (\<lambda>e. fst e \<noteq> ''include'') kvs) coll = map_of kvs coll"
    using reserved_props(3)[OF assms] by (induction kvs) auto
  then show ?thesis by (simp add: collection_entry_def)
qed

text \<open>
  C10. A well-formed document lists includes, and every entry of the list loads: the
  entries, in the order of the list, give the resolved documents \<open>ds\<close> (\<open>undefined\<close> for an
  entry without a path, which is skipped). Then \<open>resolveIncludes\<close> returns a document, and
  under every reserved collection the value of a key in that document is the first one
  defined in the order: the listing document, then the includes as listed. So among the
  includes the one listed earliest that defines the key gives its value, whatever the
  includes after it define, unless the listing document defines the key itself. The YAML
  loader is assumed to return objects without a repeated key, as every JavaScript object is.
\<close>

theorem earlier_include_wins:
  assumes M: "wf_jv M" "js_get M ''include'' = Some inc" "truthy inc"
    and yl: "\<forall>t d. yl t = Inr d \<longrightarrow> wf_opt d"
    and coll: "coll \<in> set reserved_collections"
    and ds: "map (included_document yl fm cur [normalizePath cur]) (include_list inc) = map Inr ds"
  shows "\<exists>R. resolveIncludes yl fm (Some M) cur [] = Inr (Some R) \<and>
           collection_entry (Some R) coll name =
             first_defined (collection_entry (Some M) coll name #
                            map (\<lambda>d. collection_entry d coll name) ds) \<and>
           (\<forall>v. collection_entry (Some M) coll name = Some v \<longrightarrow>
                collection_entry (Some R) coll name = Some v) \<and>
           (\<forall>i v. collection_entry (Some M) coll name = None \<and> i < length ds \<and>
                  collection_entry (ds ! i) coll name = Some v \<and>
                  (\<forall>k<i. collection_entry (ds ! k) coll name = None) \<longrightarrow>
                collection_entry (Some R) coll name = Some v)"
proof -
  have plain: "is_plain_object M" by (rule js_get_name_plain[OF M(2)]) auto
  then obtain kvs where kvs: "M = JObj kvs" by (cases M) auto
  let ?m = "JObj (filter (\<lambda>e. fst e \<noteq> ''include'') kvs)"
  have wm: "wf_jv ?m" using wf_without_include[OF M(1)] kvs by simp
  from process_includes_fold[OF yl coll wm _ ds, of name] obtain R where
    R: "process_includes yl fm cur [normalizePath cur] (include_list inc) ?m = Inr R"
       "collection_entry (Some R) coll name =
           first_defined (collection_entry (Some ?m) coll name #
                          map (\<lambda>d. collection_entry d coll name) ds)"
    by auto
  have r: "resolveIncludes yl fm (Some M) cur [] = Inr (Some R)"
    using kvs M(2,3) R(1) by (subst resolveIncludes.simps) (simp add: Let_def)
  let ?xs = "map (\<lambda>d. collection_entry d coll name) ds"
  have f: "collection_entry (Some R) coll name =
             first_defined (collection_entry (Some M) coll name # ?xs)"
    using R(2) collection_entry_without_include[OF coll, of kvs name] kvs by simp
  have a: "collection_entry (Some R) coll name = Some v"
    if "collection_entry (Some M) coll name = Some v" for v
    using f that by simp
  have b: "collection_entry (Some R) coll name = Some v"
    if h: "collection_entry (Some M) coll name = None" "i < length ds"
       "collection_entry (ds ! i) coll name = Some v"
       "\<forall>k<i. collection_entry (ds ! k) coll name = None" for i v
  proof -
    have "first_defined ?xs = Some v"
      using h(2,3,4) by (intro first_defined_nth[of i]) auto
    with f h(1) show ?thesis by simp
  qed
  from r f a b show ?thesis by blast
qed

theorem earlier_include_wins_witness:
  "resolveIncludes
     (\<lambda>t. if t = ''1'' then Inr (Some (JObj [(''services'', JObj [(''db'', JObj [(''image'', JStr ''first'')])])]))
          else if t = ''2'' then Inr (Some (JObj [(''services'', JObj [(''web'', JObj [(''image'', JStr ''second'')])])]))
          else if t = ''3'' then Inr (Some (JObj [(''services'', JObj [(''web'', JObj [(''image'', JStr ''third'')])])]))
          else Inl ''unexpected'')
     [(''one.yml'', ''1''), (''two.yml'', ''2''), (''three.yml'', ''3'')]
     (Some (JObj [(''include'', JArr [JStr ''one.yml'', JObj [(''path'', JStr ''two.yml'')], JStr ''three.yml'']),
                  (''services'', JObj [(''main'', JObj [(''image'', JStr ''m'')])])]))
     ''docker-compose.yml'' []
   = Inr (Some (JObj [(''services'', JObj [(''web'', JObj [(''image'', JStr ''second'')]),
                                          (''db'', JObj [(''image'', JStr ''first'')]),
                                          (''main'', JObj [(''image'', JStr ''m'')])])])) \<and>
   collection_entry (Some (JObj [(''services'', JObj [(''web'', JObj [(''image'', JStr ''second'')]),
                                          (''db'', JObj [(''image'', JStr ''first'')]),
                                          (''main'', JObj [(''image'', JStr ''m'')])])])) ''services'' ''web''
   = Some (JObj [(''image'', JStr ''second'')])"
proof -
  let ?D1 = "JObj [(''services'', JObj [(''db'', JObj [(''image'', JStr ''first'')])])]"
  let ?D2 = "JObj [(''services'', JObj [(''web'', JObj [(''image'', JStr ''second'')])])]"
  let ?D3 = "JObj [(''services'', JObj [(''web'', JObj [(''image'', JStr ''third'')])])]"
  let ?yl = "\<lambda>t. if t = ''1'' then Inr (Some ?D1)
          else if t = ''2'' then Inr (Some ?D2)
          else if t = ''3'' then Inr (Some ?D3)
          else Inl ''unexpected''"
  let ?fm = "[(''one.yml'', ''1''), (''two.yml'', ''2''), (''three.yml'', ''3'')]"
  let ?inc = "JArr [JStr ''one.yml'', JObj [(''path'', JStr ''two.yml'')], JStr ''three.yml'']"
  let ?M = "JObj [(''include'', ?inc), (''services'', JObj [(''main'', JObj [(''image'', JStr ''m'')])])]"
  let ?R = "JObj [(''services'', JObj [(''web'', JObj [(''image'', JStr ''second'')]),
                                          (''db'', JObj [(''image'', JStr ''first'')]),
                                          (''main'', JObj [(''image'', JStr ''m'')])])]"
  let ?ds = "[Some ?D1, Some ?D2, Some ?D3]"
  have M: "wf_jv ?M" "js_get ?M ''include'' = Some ?inc" "truthy ?inc" by simp_all
  have yl: "\<forall>t d. ?yl t = Inr d \<longrightarrow> wf_opt d"
    by (auto simp: wf_opt_def split: if_splits)
  have coll: "''services'' \<in> set reserved_collections" by (simp add: reserved_collections_def)
  have ds: "map (included_document ?yl ?fm ''docker-compose.yml'' [normalizePath ''docker-compose.yml''])
              (include_list ?inc) = map Inr ?ds"
    by code_simp
  have r: "resolveIncludes ?yl ?fm (Some ?M) ''docker-compose.yml'' [] = Inr (Some ?R)"
    by code_simp
  have e: "collection_entry (Some ?M) ''services'' ''web'' = None"
    "collection_entry (?ds ! 0) ''services'' ''web'' = None"
    "collection_entry (?ds ! 1) ''services'' ''web'' = Some (JObj [(''image'', JStr ''second'')])"
    by (simp_all add: collection_entry_def entries_or_empty_def)
  have k: "\<forall>k<1. collection_entry (?ds ! k) ''services'' ''web'' = None"
    using e(2) by simp
  from earlier_include_wins[OF M yl coll ds, of "''web''"] r
  have "\<forall>i v. collection_entry (Some ?M) ''services'' ''web'' = None \<and> i < length ?ds \<and>
                  collection_entry (?ds ! i) ''services'' ''web'' = Some v \<and>
                  (\<forall>k<i. collection_entry (?ds ! k) ''services'' ''web'' = None) \<longrightarrow>
                collection_entry (Some ?R) ''services'' ''web'' = Some v"
    by auto
  then have "collection_entry (Some ?M) ''services'' ''web'' = None \<and> 1 < length ?ds \<and>
                  collection_entry (?ds ! 1) ''services'' ''web'' = Some (JObj [(''image'', JStr ''second'')]) \<and>
                  (\<forall>k<1. collection_entry (?ds ! k) ''services'' ''web'' = None) \<longrightarrow>
                collection_entry (Some ?R) ''services'' ''web'' = Some (JObj [(''image'', JStr ''second'')])"
    by blast
  with e k have "collection_entry (Some ?R) ''services'' ''web'' = Some (JObj [(''image'', JStr ''second'')])"
    by simp
  with r show ?thesis by simp
qed

section \<open>Properties of the variable interpolator\<close>

subsection \<open>Splitting at a separator of any length\<close>

lemma split_acc_at:
  "p \<noteq> [] \<Longrightarrow> hd p \<notin> set X \<Longrightarrow>
   split_acc p acc (X @ p @ d) = (rev acc @ X) # split_acc p [] d"
proof (induction X arbitrary: acc)
  case Nil
  then show ?case by (cases p) auto
next
  case (Cons x X)
  from Cons.prems have "take (length p) (x # X @ p @ d) \<noteq> p"
    by (cases p) auto
  with Cons show ?case by simp
qed

lemma split_acc_none:
  "p \<noteq> [] \<Longrightarrow> \<not> str_includes d p \<Longrightarrow> split_acc p acc d = [rev acc @ d]"
  by (induction d arbitrary: acc) (auto simp: startsWith_def)

lemma not_includes_hd:
  "p \<noteq> [] \<Longrightarrow> hd p \<notin> set d \<Longrightarrow> \<not> str_includes d p"
  by (induction d) (auto simp: startsWith_def; cases p; auto)+

lemma includes_prefix: "str_includes (p @ d) p"
proof -
  have "startsWith (p @ d) p" by (simp add: startsWith_def)
  then show ?thesis by (cases "p @ d") auto
qed

lemma includes_at: "str_includes (X @ p @ d) p"
  by (induction X) (simp_all add: includes_prefix)

lemma split_acc_nonempty: "split_acc sep acc s \<noteq> []"
  by (induction sep acc s rule: split_acc.induct) auto

lemma includes_skip:
  "p \<noteq> [] \<Longrightarrow> hd p \<notin> set X \<Longrightarrow> str_includes (X @ r) p = str_includes r p"
  by (induction X) (auto simp: startsWith_def; cases p; auto)+

lemma includes_char: "str_includes s [c] = (c \<in> set s)"
  by (induction s) (auto simp: startsWith_def)

lemma split_two:
  "p \<noteq> [] \<Longrightarrow> hd p \<notin> set X \<Longrightarrow> \<not> str_includes d p \<Longrightarrow> split p (X @ p @ d) = [X, d]"
  by (simp add: split_def split_acc_at split_acc_none)

lemma split_acc_length:
  "p \<noteq> [] \<Longrightarrow> str_includes s p \<Longrightarrow> 2 \<le> length (split_acc p acc s)"
proof (induction s arbitrary: acc)
  case Nil
  then show ?case by simp
next
  case (Cons x s)
  show ?case
  proof (cases "take (length p) (x # s) = p")
    case True
    have "split_acc p [] (drop (length p) (x # s)) \<noteq> []"
      by (rule split_acc_nonempty)
    with True Cons.prems(1) show ?thesis
      by (cases "split_acc p [] (drop (length p) (x # s))") auto
  next
    case False
    with Cons show ?thesis by (auto simp: startsWith_def)
  qed
qed

lemma first_two_snd: "2 \<le> length ps \<Longrightarrow> snd (first_two ps) \<noteq> None"
  by (cases ps; cases "tl ps") (auto simp: first_two_def)


lemma includes_subset: "str_includes s p \<Longrightarrow> set p \<subseteq> set s"
proof (induction s)
  case Nil
  then show ?case by simp
next
  case (Cons x s)
  show ?case
  proof (cases "startsWith (x # s) p")
    case True
    then have "p = take (length p) (x # s)" by (simp add: startsWith_def)
    then have "set p \<subseteq> set (x # s)" by (metis set_take_subset)
    then show ?thesis .
  next
    case False
    with Cons show ?thesis by auto
  qed
qed

lemma not_includes_char: "c \<in> set p \<Longrightarrow> c \<notin> set s \<Longrightarrow> \<not> str_includes s p"
  using includes_subset by blast

lemma parse_default_colon:
  assumes X: "CHR '':'' \<notin> set X" "CHR ''?'' \<notin> set X" "CHR ''-'' \<notin> set X"
    and d: "\<not> str_includes d '':?''" "\<not> str_includes d '':-''"
  shows "parse_expression (X @ '':-'' @ d) =
           \<lparr> varName = X, defaultValue = Some d, errorMessage = None,
             requireSet = False, requireNonEmpty = True \<rparr>"
proof -
  have a: "\<not> str_includes (X @ '':-'' @ d) '':?''"
    using X d includes_skip[of "'':?''" X "'':-'' @ d"] by (simp add: startsWith_def)
  have b: "str_includes (X @ '':-'' @ d) '':-''" by (rule includes_at)
  have c: "split '':-'' (X @ '':-'' @ d) = [X, d]" using X d by (intro split_two) auto
  show ?thesis using a b c by (simp add: parse_expression_def first_two_def)
qed

lemma parse_default_dash:
  assumes X: "CHR '':'' \<notin> set X" "CHR ''?'' \<notin> set X" "CHR ''-'' \<notin> set X"
    and d: "CHR ''-'' \<notin> set d" "\<not> str_includes d '':?''"
  shows "parse_expression (X @ ''-'' @ d) =
           \<lparr> varName = X, defaultValue = Some d, errorMessage = None,
             requireSet = True, requireNonEmpty = False \<rparr>"
proof -
  have a: "\<not> str_includes (X @ ''-'' @ d) '':?''"
    using X d includes_skip[of "'':?''" X "''-'' @ d"] by (simp add: startsWith_def)
  have b: "str_includes (X @ ''-'' @ d) ''-''" by (rule includes_at)
  have "\<not> str_includes d '':-''" using d(1) by (intro not_includes_char[of "CHR ''-''"]) auto
  then have b': "\<not> str_includes (X @ ''-'' @ d) '':-''"
    using X includes_skip[of "'':-''" X "''-'' @ d"] by (simp add: startsWith_def)
  have c: "split ''-'' (X @ ''-'' @ d) = [X, d]"
    using X d by (intro split_two) (auto simp: includes_char)
  show ?thesis using a b b' c by (simp add: parse_expression_def first_two_def)
qed

lemma parse_required_colon:
  assumes X: "CHR '':'' \<notin> set X" "CHR ''?'' \<notin> set X" "CHR ''-'' \<notin> set X"
    and m: "\<not> str_includes m '':?''"
  shows "parse_expression (X @ '':?'' @ m) =
           \<lparr> varName = X, defaultValue = None, errorMessage = Some m,
             requireSet = False, requireNonEmpty = True \<rparr>"
proof -
  have a: "str_includes (X @ '':?'' @ m) '':?''" by (rule includes_at)
  have c: "split '':?'' (X @ '':?'' @ m) = [X, m]" using X m by (intro split_two) auto
  show ?thesis using a c by (simp add: parse_expression_def first_two_def)
qed

lemma parse_required_plain:
  assumes X: "CHR '':'' \<notin> set X" "CHR ''?'' \<notin> set X" "CHR ''-'' \<notin> set X"
    and m: "CHR ''-'' \<notin> set m" "CHR ''?'' \<notin> set m"
  shows "parse_expression (X @ ''?'' @ m) =
           \<lparr> varName = X, defaultValue = None, errorMessage = Some m,
             requireSet = True, requireNonEmpty = False \<rparr>"
proof -
  have m1: "\<not> str_includes m '':?''" using m(2) by (intro not_includes_char[of "CHR ''?''"]) auto
  have a: "\<not> str_includes (X @ ''?'' @ m) '':?''"
    using X m1 includes_skip[of "'':?''" X "''?'' @ m"] by (simp add: startsWith_def)
  have b: "str_includes (X @ ''?'' @ m) ''?''" by (rule includes_at)
  have e: "\<not> str_includes (X @ ''?'' @ m) ''-''" using X m by (simp add: includes_char)
  have "\<not> str_includes m '':-''" using m(1) by (intro not_includes_char[of "CHR ''-''"]) auto
  then have f: "\<not> str_includes (X @ ''?'' @ m) '':-''"
    using X includes_skip[of "'':-''" X "''?'' @ m"] by (simp add: startsWith_def)
  have c: "split ''?'' (X @ ''?'' @ m) = [X, m]"
    using X m by (intro split_two) (auto simp: includes_char)
  show ?thesis using a b e f c by (simp add: parse_expression_def first_two_def)
qed

lemma parse_priority:
  "(str_includes e '':?'' \<longrightarrow>
      requireNonEmpty (parse_expression e) \<and> \<not> requireSet (parse_expression e) \<and>
      errorMessage (parse_expression e) \<noteq> None \<and> defaultValue (parse_expression e) = None) \<and>
   (\<not> str_includes e '':?'' \<and> str_includes e ''?'' \<and> \<not> str_includes e ''-'' \<longrightarrow>
      requireSet (parse_expression e) \<and> \<not> requireNonEmpty (parse_expression e) \<and>
      errorMessage (parse_expression e) \<noteq> None \<and> defaultValue (parse_expression e) = None) \<and>
   (\<not> str_includes e '':?'' \<and> \<not> (str_includes e ''?'' \<and> \<not> str_includes e ''-'') \<and>
    str_includes e '':-'' \<longrightarrow>
      requireNonEmpty (parse_expression e) \<and> \<not> requireSet (parse_expression e) \<and>
      defaultValue (parse_expression e) \<noteq> None \<and> errorMessage (parse_expression e) = None) \<and>
   (\<not> str_includes e '':?'' \<and> \<not> str_includes e '':-'' \<and> str_includes e ''-'' \<longrightarrow>
      requireSet (parse_expression e) \<and> \<not> requireNonEmpty (parse_expression e) \<and>
      defaultValue (parse_expression e) \<noteq> None \<and> errorMessage (parse_expression e) = None)"
proof -
  have s: "\<And>p. p \<noteq> [] \<Longrightarrow> str_includes e p \<Longrightarrow> snd (first_two (split p e)) \<noteq> None"
    unfolding split_def by (intro first_two_snd split_acc_length)
  have i: "str_includes e '':-'' \<Longrightarrow> str_includes e ''-''"
    using includes_subset[of e "'':-''"] by (auto simp: includes_char)
  show ?thesis
    using s[of "'':?''"] s[of "''?''"] s[of "'':-''"] s[of "''-''"] i
    by (auto simp: parse_expression_def Let_def)
qed

text \<open>
  C3. The claim: for all strings \<open>d\<close> and \<open>m\<close>, \<open>${X:-d}\<close> and \<open>${X-d}\<close> yield the value or
  the default \<open>d\<close>, and \<open>${X:?m}\<close> and \<open>${X?m}\<close> fail with the message \<open>m\<close>. As stated it
  fails: the expression is cut at every occurrence of the operator, so the default of
  \<open>${X-a-b}\<close> is \<open>a\<close>, and an empty message raises nothing.
\<close>

theorem substitution_operators_counterexample:
  "substituteVariable ''${X-a-b}'' ''X-a-b'' (\<lambda>v. None) = Inr ''a'' \<and>
   substituteVariable ''${X:?}'' ''X:?'' (\<lambda>v. None) = Inr ''''"
  by (simp add: substituteVariable_def parse_expression_def split_def startsWith_def first_two_def)

text \<open>
  C3, amended. For a variable name \<open>X\<close> without colon, question mark or dash:
  \<open>${X:-d}\<close> is the value of \<open>X\<close> when it is set and not empty and \<open>d\<close> otherwise, for \<open>d\<close>
  without \<open>:?\<close> and \<open>:-\<close>; \<open>${X-d}\<close> is the value of \<open>X\<close> when it is set (even empty) and
  \<open>d\<close> when it is unset, for \<open>d\<close> without dash and \<open>:?\<close>; \<open>${X:?m}\<close> fails with the message
  \<open>m\<close> exactly when \<open>X\<close> is unset or empty, for a non-empty \<open>m\<close> without \<open>:?\<close>; \<open>${X?m}\<close>
  fails with the message \<open>m\<close> exactly when \<open>X\<close> is unset, for a non-empty \<open>m\<close> without dash
  and question mark. The operator of an expression is found in the order \<open>:?\<close>, then a
  question mark in an expression without dash, then \<open>:-\<close>, then a dash.
\<close>

theorem substitution_operators:
  assumes X: "CHR '':'' \<notin> set X" "CHR ''?'' \<notin> set X" "CHR ''-'' \<notin> set X"
  shows
   "(\<not> str_includes d '':?'' \<and> \<not> str_includes d '':-'' \<longrightarrow>
       substituteVariable w (X @ '':-'' @ d) env =
         Inr (case env X of None \<Rightarrow> d | Some v \<Rightarrow> if v = [] then d else v)) \<and>
    (CHR ''-'' \<notin> set d \<and> \<not> str_includes d '':?'' \<longrightarrow>
       substituteVariable w (X @ ''-'' @ d) env =
         Inr (case env X of None \<Rightarrow> d | Some v \<Rightarrow> v)) \<and>
    (m \<noteq> [] \<and> \<not> str_includes m '':?'' \<longrightarrow>
       substituteVariable w (X @ '':?'' @ m) env =
         (case env X of None \<Rightarrow> Inl m | Some v \<Rightarrow> if v = [] then Inl m else Inr v)) \<and>
    (m \<noteq> [] \<and> CHR ''-'' \<notin> set m \<and> CHR ''?'' \<notin> set m \<longrightarrow>
       substituteVariable w (X @ ''?'' @ m) env =
         (case env X of None \<Rightarrow> Inl m | Some v \<Rightarrow> Inr v)) \<and>
    (str_includes e '':?'' \<longrightarrow>
      requireNonEmpty (parse_expression e) \<and> \<not> requireSet (parse_expression e) \<and>
      errorMessage (parse_expression e) \<noteq> None \<and> defaultValue (parse_expression e) = None) \<and>
    (\<not> str_includes e '':?'' \<and> str_includes e ''?'' \<and> \<not> str_includes e ''-'' \<longrightarrow>
      requireSet (parse_expression e) \<and> \<not> requireNonEmpty (parse_expression e) \<and>
      errorMessage (parse_expression e) \<noteq> None \<and> defaultValue (parse_expression e) = None) \<and>
    (\<not> str_includes e '':?'' \<and> \<not> (str_includes e ''?'' \<and> \<not> str_includes e ''-'') \<and>
     str_includes e '':-'' \<longrightarrow>
      requireNonEmpty (parse_expression e) \<and> \<not> requireSet (parse_expression e) \<and>
      defaultValue (parse_expression e) \<noteq> None \<and> errorMessage (parse_expression e) = None) \<and>
    (\<not> str_includes e '':?'' \<and> \<not> str_includes e '':-'' \<and> str_includes e ''-'' \<longrightarrow>
      requireSet (parse_expression e) \<and> \<not> requireNonEmpty (parse_expression e) \<and>
      defaultValue (parse_expression e) \<noteq> None \<and> errorMessage (parse_expression e) = None)"
proof -
  have 1: "substituteVariable w (X @ '':-'' @ d) env =
         Inr (case env X of None \<Rightarrow> d | Some v \<Rightarrow> if v = [] then d else v)"
    if "\<not> str_includes d '':?''" "\<not> str_includes d '':-''"
    using parse_default_colon[OF X that]
    by (auto simp: substituteVariable_def Let_def split: option.splits)
  have 2: "substituteVariable w (X @ ''-'' @ d) env =
         Inr (case env X of None \<Rightarrow> d | Some v \<Rightarrow> v)"
    if "CHR ''-'' \<notin> set d" "\<not> str_includes d '':?''"
    using parse_default_dash[OF X that]
    by (auto simp: substituteVariable_def Let_def split: option.splits)
  have 3: "substituteVariable w (X @ '':?'' @ m) env =
         (case env X of None \<Rightarrow> Inl m | Some v \<Rightarrow> if v = [] then Inl m else Inr v)"
    if "m \<noteq> []" "\<not> str_includes m '':?''"
    using parse_required_colon[OF X that(2)] that(1)
    by (auto simp: substituteVariable_def Let_def split: option.splits)
  have 4: "substituteVariable w (X @ ''?'' @ m) env =
         (case env X of None \<Rightarrow> Inl m | Some v \<Rightarrow> Inr v)"
    if "m \<noteq> []" "CHR ''-'' \<notin> set m" "CHR ''?'' \<notin> set m"
    using parse_required_plain[OF X that(2,3)] that(1)
    by (auto simp: substituteVariable_def Let_def split: option.splits)
  from 1 2 3 4 parse_priority[of e] show ?thesis by blast
qed

theorem substitution_operators_witness:
  "CHR '':'' \<notin> set ''X'' \<and> CHR ''?'' \<notin> set ''X'' \<and> CHR ''-'' \<notin> set ''X'' \<and>
   \<not> str_includes ''d'' '':?'' \<and> \<not> str_includes ''d'' '':-'' \<and> CHR ''-'' \<notin> set ''d'' \<and>
   substituteVariable ''${X:-d}'' ''X:-d'' (map_of [(''X'', '''')]) = Inr ''d'' \<and>
   substituteVariable ''${X-d}'' ''X-d'' (map_of [(''X'', '''')]) = Inr '''' \<and>
   substituteVariable ''${X:?m}'' ''X:?m'' (map_of [(''X'', '''')]) = Inl ''m'' \<and>
   substituteVariable ''${X?m}'' ''X?m'' (map_of [(''X'', '''')]) = Inr ''''"
proof -
  have h: "CHR '':'' \<notin> set ''X''" "CHR ''?'' \<notin> set ''X''" "CHR ''-'' \<notin> set ''X''" by simp_all
  have g: "\<not> str_includes ''d'' '':?''" "\<not> str_includes ''d'' '':-''" "CHR ''-'' \<notin> set ''d''"
    "''m'' \<noteq> []" "\<not> str_includes ''m'' '':?''" "CHR ''-'' \<notin> set ''m''" "CHR ''?'' \<notin> set ''m''"
    by (simp_all add: startsWith_def)
  note t = substitution_operators[OF h, of "''d''" _ "map_of [(''X'', '''')]" "''m''"]
  from t[of "''${X:-d}''"] g have 1: "substituteVariable ''${X:-d}'' ''X:-d'' (map_of [(''X'', '''')]) = Inr ''d''" by simp
  from t[of "''${X-d}''"] g have 2: "substituteVariable ''${X-d}'' ''X-d'' (map_of [(''X'', '''')]) = Inr ''''" by simp
  from t[of "''${X:?m}''"] g have 3: "substituteVariable ''${X:?m}'' ''X:?m'' (map_of [(''X'', '''')]) = Inl ''m''" by simp
  from t[of "''${X?m}''"] g have 4: "substituteVariable ''${X?m}'' ''X?m'' (map_of [(''X'', '''')]) = Inr ''''" by simp
  from h g 1 2 3 4 show ?thesis by blast
qed

subsection \<open>The dollar escape\<close>

lemma join_split_acc:
  "join rep (split_acc sep acc s) = rev acc @ join rep (split_acc sep [] s)"
proof (induction s arbitrary: acc)
  case Nil
  then show ?case by simp
next
  case (Cons x xs)
  show ?case
  proof (cases "sep \<noteq> [] \<and> take (length sep) (x # xs) = sep")
    case True
    obtain y ys where y: "split_acc sep [] (drop (length sep) (x # xs)) = y # ys"
      using split_acc_nonempty[of sep "[]" "drop (length sep) (x # xs)"]
      by (cases "split_acc sep [] (drop (length sep) (x # xs))") auto
    from True show ?thesis by (simp add: y del: drop_Suc_Cons)
  next
    case False
    from Cons[of "x # acc"] Cons[of "[x]"] False show ?thesis by auto
  qed
qed

lemma replace_all_Nil: "replace_all sep rep [] = []"
  by (simp add: replace_all_def split_def)

lemma replace_all_match:
  assumes "sep \<noteq> []" "take (length sep) (x # xs) = sep"
  shows "replace_all sep rep (x # xs) = rep @ replace_all sep rep (drop (length sep) (x # xs))"
proof -
  obtain y ys where y: "split_acc sep [] (drop (length sep) (x # xs)) = y # ys"
    using split_acc_nonempty[of sep "[]" "drop (length sep) (x # xs)"]
    by (cases "split_acc sep [] (drop (length sep) (x # xs))") auto
  from assms show ?thesis
    by (simp add: replace_all_def split_def y del: drop_Suc_Cons)
qed

lemma replace_all_skip:
  assumes "take (length sep) (x # xs) \<noteq> sep"
  shows "replace_all sep rep (x # xs) = x # replace_all sep rep xs"
  using assms join_split_acc[of rep sep "[x]" xs]
  by (simp add: replace_all_def split_def)

lemma split_acc_pieces:
  "x \<in> set (split_acc p acc s) \<Longrightarrow> set x \<subseteq> set acc \<union> set s"
proof (induction p acc s arbitrary: x rule: split_acc.induct)
  case (1 sep acc)
  then show ?case by auto
next
  case (2 sep acc c s)
  show ?case
  proof (cases "sep \<noteq> [] \<and> take (length sep) (c # s) = sep")
    case True
    with "2.prems" have "x = rev acc \<or> x \<in> set (split_acc sep [] (drop (length sep) (c # s)))"
      by (simp del: drop_Suc_Cons)
    then show ?thesis
    proof
      assume "x = rev acc"
      then show ?thesis by auto
    next
      assume "x \<in> set (split_acc sep [] (drop (length sep) (c # s)))"
      from "2.IH"(1)[OF True this] have "set x \<subseteq> set (drop (length sep) (c # s))" by simp
      also have "\<dots> \<subseteq> set (c # s)" by (rule set_drop_subset)
      finally show ?thesis by auto
    qed
  next
    case False
    with "2.prems" have "x \<in> set (split_acc sep (c # acc) s)" by auto
    from "2.IH"(2)[OF False this] show ?thesis by auto
  qed
qed

lemma set_join: "set (join rep ps) \<subseteq> set rep \<union> \<Union> (set ` set ps)"
  by (induction rep ps rule: join.induct) auto

lemma placeholder_props:
  "ESCAPED_DOLLAR_PLACEHOLDER \<noteq> []" "hd ESCAPED_DOLLAR_PLACEHOLDER = CHR 0x00"
  "CHR ''{'' \<notin> set ESCAPED_DOLLAR_PLACEHOLDER" "CHR ''$'' \<notin> set ESCAPED_DOLLAR_PLACEHOLDER"
  "CHR ''}'' \<notin> set ESCAPED_DOLLAR_PLACEHOLDER" "last ESCAPED_DOLLAR_PLACEHOLDER = CHR 0x00"
  by (simp_all add: ESCAPED_DOLLAR_PLACEHOLDER_def)

lemma set_replace_all: "set (replace_all sep rep s) \<subseteq> set rep \<union> set s"
proof -
  have "set x \<subseteq> set s" if "x \<in> set (split sep s)" for x
    using split_acc_pieces[of x sep "[]" s] that by (simp add: split_def)
  with set_join[of rep "split sep s"] show ?thesis by (auto simp: replace_all_def)
qed

lemma escape_head:
  "replace_all ''$$'' rep (CHR ''$'' # CHR ''$'' # s) = rep @ replace_all ''$$'' rep s"
  using replace_all_match[of "''$$''" "CHR ''$''" "CHR ''$'' # s" rep] by simp

lemma escape_skip:
  assumes "\<not> (c = CHR ''$'' \<and> take 1 s = ''$'')"
  shows "replace_all ''$$'' rep (c # s) = c # replace_all ''$$'' rep s"
proof -
  from assms have "take (length ''$$'') (c # s) \<noteq> ''$$''" by (cases s) auto
  then show ?thesis by (rule replace_all_skip)
qed

lemma escape_segment:
  assumes "\<not> str_includes e ''$$''" "d \<noteq> CHR ''$''"
  shows "replace_all ''$$'' rep (e @ d # y) = e @ replace_all ''$$'' rep (d # y)"
  using assms
proof (induction e)
  case Nil
  then show ?case by simp
next
  case (Cons x e)
  have "\<not> (x = CHR ''$'' \<and> take 1 (e @ d # y) = ''$'')"
    using Cons.prems by (cases e) (auto simp: startsWith_def)
  from escape_skip[OF this] Cons show ?case by auto
qed

lemma var_match_SomeD:
  assumes "var_match prev s = Some (e, rest)"
  shows "s = ''${'' @ e @ ''}'' @ rest" "e \<noteq> []" "CHR ''}'' \<notin> set e" "prev \<noteq> Some (CHR ''$'')"
proof -
  from assms obtain u where u: "s = CHR ''$'' # CHR ''{'' # u" "prev \<noteq> Some (CHR ''$'')"
    "e = takeWhile (\<lambda>c. c \<noteq> CHR ''}'') u" "e \<noteq> []" "length e \<noteq> length u"
    "rest = drop (Suc (length e)) u"
    by (auto simp: var_match_def Let_def split: list.splits if_splits)
  show "e \<noteq> []" "prev \<noteq> Some (CHR ''$'')" using u by simp_all
  show "CHR ''}'' \<notin> set e" unfolding u(3) by (auto dest: set_takeWhileD)
  have "u = e @ dropWhile (\<lambda>c. c \<noteq> CHR ''}'') u" unfolding u(3) by simp
  moreover have "dropWhile (\<lambda>c. c \<noteq> CHR ''}'') u \<noteq> []"
    using u(3,5) by (metis append_Nil2 calculation)
  then obtain z zs where z: "dropWhile (\<lambda>c. c \<noteq> CHR ''}'') u = z # zs"
    by (cases "dropWhile (\<lambda>c. c \<noteq> CHR ''}'') u") auto
  then have "z = CHR ''}''" using hd_dropWhile[of "\<lambda>c. c \<noteq> CHR ''}''" u] by fastforce
  ultimately have ue: "u = e @ CHR ''}'' # zs" using z by simp
  have "drop (Suc (length e)) (e @ CHR ''}'' # zs) = zs" by simp
  then have "rest = zs" using u(6) ue by simp
  with ue u(1) show "s = ''${'' @ e @ ''}'' @ rest" by simp
qed

lemma var_match_SomeI:
  assumes "prev \<noteq> Some (CHR ''$'')" "e \<noteq> []" "CHR ''}'' \<notin> set e"
  shows "var_match prev (''${'' @ e @ ''}'' @ rest) = Some (e, rest)"
proof -
  have t: "takeWhile (\<lambda>c. c \<noteq> CHR ''}'') (e @ CHR ''}'' # rest) = e"
    using assms(3) by (induction e) auto
  show ?thesis using assms(1,2) by (simp add: var_match_def Let_def t)
qed

lemma var_match_not_dollar: "c \<noteq> CHR ''$'' \<Longrightarrow> var_match prev (c # s) = None"
  by (auto simp: var_match_def split: list.splits)

lemma replace_variables_run:
  "CHR ''$'' \<notin> set x \<Longrightarrow> x \<noteq> [] \<Longrightarrow>
   replace_variables env t prev (x @ y) st =
     replace_variables env t (Some (last x)) y (st\<lparr> resolved := resolved st @ x \<rparr>)"
proof (induction x arbitrary: prev st)
  case Nil
  then show ?case by simp
next
  case (Cons a x)
  from Cons.prems have "a \<noteq> CHR ''$''" by auto
  then have a: "var_match prev (a # x @ y) = None" by (rule var_match_not_dollar)
  show ?case
  proof (cases "x = []")
    case True
    with a show ?thesis by simp
  next
    case False
    with Cons a show ?thesis by simp
  qed
qed

lemma var_match_escaped_None:
  assumes "var_match None (c # s) = None" "\<not> (c = CHR ''$'' \<and> take 1 s = ''$'')"
  shows "var_match prev (c # replace_all ''$$'' ESCAPED_DOLLAR_PLACEHOLDER s) = None"
proof (cases "c = CHR ''$''")
  case False
  then show ?thesis by (rule var_match_not_dollar)
next
  case True
  let ?P = "ESCAPED_DOLLAR_PLACEHOLDER"
  show ?thesis
  proof (cases s)
    case Nil
    then show ?thesis by (simp add: replace_all_Nil var_match_def)
  next
    case (Cons x u)
    with assms(2) True have x: "x \<noteq> CHR ''$''" by auto
    then have p: "replace_all ''$$'' ?P s = x # replace_all ''$$'' ?P u"
      unfolding Cons by (intro escape_skip) simp
    show ?thesis
    proof (cases "x = CHR ''{''")
      case False
      then show ?thesis by (simp add: p var_match_def)
    next
      case xb: True
      let ?e = "takeWhile (\<lambda>c. c \<noteq> CHR ''}'') u"
      let ?e' = "takeWhile (\<lambda>c. c \<noteq> CHR ''}'') (replace_all ''$$'' ?P u)"
      from assms(1) True Cons xb have e: "?e = [] \<or> length ?e = length u"
        by (auto simp: var_match_def Let_def split: if_splits)
      have "?e' = [] \<or> length ?e' = length (replace_all ''$$'' ?P u)"
      proof (cases u)
        case Nil
        then show ?thesis by (simp add: replace_all_Nil)
      next
        case (Cons y w)
        show ?thesis
        proof (cases "y = CHR ''}''")
          case True
          then have "replace_all ''$$'' ?P u = y # replace_all ''$$'' ?P w"
            unfolding Cons by (intro escape_skip) simp
          with True show ?thesis by simp
        next
          case False
          with e Cons have "length ?e = length u" by auto
          then have "?e = u" by (metis takeWhile_eq_take take_all_iff order_refl)
          then have "CHR ''}'' \<notin> set u" by (metis (mono_tags, lifting) set_takeWhileD)
          with set_replace_all[of "''$$''" ?P u] placeholder_props(5)
          have "CHR ''}'' \<notin> set (replace_all ''$$'' ?P u)" by auto
          then have "?e' = replace_all ''$$'' ?P u" by (auto simp: takeWhile_eq_all_conv)
          then have "length ?e' = length (replace_all ''$$'' ?P u)" by (rule arg_cong)
          then show ?thesis by (rule disjI2)
        qed
      qed
      then show ?thesis
        unfolding p using xb by (auto simp: var_match_def Let_def)
    qed
  qed
qed

lemma replace_variables_no_throw:
  "\<not> t \<Longrightarrow> thrown (replace_variables env t prev u st) = thrown st"
proof (induction "length u" arbitrary: u prev st rule: less_induct)
  case less
  show ?case
  proof (cases u)
    case Nil
    then show ?thesis by simp
  next
    case (Cons c s)
    show ?thesis
    proof (cases "var_match prev (c # s)")
      case None
      with less.hyps[of s "Some c"] less.prems Cons show ?thesis by simp
    next
      case (Some m)
      then have "length (snd m) < length u"
        using var_match_shorter[of prev "c # s" "fst m" "snd m"] Cons by simp
      from less.hyps[OF this less.prems] Some less.prems Cons show ?thesis
        by (simp add: Let_def split: sum.splits)
    qed
  qed
qed

lemma tokens_escape: "tokens (CHR ''$'' # CHR ''$'' # s) = Escape # tokens s"
  by (subst tokens.simps) simp

lemma tokens_reference:
  assumes "var_match None (c # s) = Some (e, rest)"
  shows "tokens (c # s) = Reference e # tokens rest"
proof -
  from var_match_SomeD(1)[OF assms] have "take 1 s = ''{''" by auto
  with assms show ?thesis by (subst tokens.simps) simp
qed

lemma tokens_plain:
  assumes "var_match None (c # s) = None" "\<not> (c = CHR ''$'' \<and> take 1 s = ''$'')"
  shows "tokens (c # s) = Plain c # tokens s"
  using assms by (subst tokens.simps) auto

lemma replace_variables_tokens:
  "(\<forall>e \<in> set (references s). \<not> str_includes e ''$$'') \<Longrightarrow>
   (prev = Some (CHR ''$'') \<longrightarrow> take 1 s \<noteq> ''$'') \<Longrightarrow>
   thrown (replace_variables env t prev (replace_all ''$$'' ESCAPED_DOLLAR_PLACEHOLDER s) st) = None \<Longrightarrow>
   resolved (replace_variables env t prev (replace_all ''$$'' ESCAPED_DOLLAR_PLACEHOLDER s) st) =
     resolved st @ expand ESCAPED_DOLLAR_PLACEHOLDER env s \<and>
   hasVariable (replace_variables env t prev (replace_all ''$$'' ESCAPED_DOLLAR_PLACEHOLDER s) st) =
     (hasVariable st \<or> references s \<noteq> []) \<and>
   variables (replace_variables env t prev (replace_all ''$$'' ESCAPED_DOLLAR_PLACEHOLDER s) st) =
     fold (\<lambda>n vs. if n \<in> set vs then vs else vs @ [n])
       (map name_of_expression (references s)) (variables st)"
proof (induction s arbitrary: prev st rule: tokens.induct)
  case 1
  then show ?case by (simp add: replace_all_Nil expand_def references_def tokens.simps)
next
  case (2 c s)
  let ?P = "ESCAPED_DOLLAR_PLACEHOLDER"
  let ?pre = "replace_all ''$$'' ?P"
  show ?case
  proof (cases "c = CHR ''$'' \<and> take 1 s = ''$''")
    case True
    then obtain s' where s': "s = CHR ''$'' # s'" "c = CHR ''$''" by (cases s) auto
    have p: "?pre (c # s) = ?P @ ?pre s'" unfolding s' by (rule escape_head)
    let ?st = "st\<lparr> resolved := resolved st @ ?P \<rparr>"
    have run: "replace_variables env t prev (?pre (c # s)) st =
               replace_variables env t (Some (CHR 0x00)) (?pre s') ?st"
      unfolding p using replace_variables_run[of ?P env t prev "?pre s'" st]
      by (simp add: placeholder_props)
    have r: "references (c # s) = references s'" "expand ?P env (c # s) = ?P @ expand ?P env s'"
      unfolding s' by (simp_all add: references_def expand_def token_text_def tokens_escape)
    have d: "drop 1 s = s'" using s' by simp
    from "2.IH"(1)[OF True, unfolded d, of "Some (CHR 0x00)" ?st] "2.prems"(1,3)
    show ?thesis unfolding run r by simp
  next
    case False
    show ?thesis
    proof (cases "var_match None (c # s)")
      case None
      have p: "?pre (c # s) = c # ?pre s" using False by (rule escape_skip)
      have vm: "var_match prev (c # ?pre s) = None"
        using None False by (rule var_match_escaped_None)
      let ?st = "st\<lparr> resolved := resolved st @ [c] \<rparr>"
      have run: "replace_variables env t prev (?pre (c # s)) st =
                 replace_variables env t (Some c) (?pre s) ?st"
        unfolding p using vm by simp
      have r: "references (c # s) = references s" "expand ?P env (c # s) = c # expand ?P env s"
        by (simp_all add: references_def expand_def token_text_def tokens_plain[OF None False])
      have inv: "Some c = Some (CHR ''$'') \<longrightarrow> take 1 s \<noteq> ''$''" using False by auto
      from "2.IH"(2)[OF False None _ inv, of ?st] "2.prems"(1,3)
      show ?thesis unfolding run r by simp
    next
      case (Some m)
      obtain e rest where m: "m = (e, rest)" by (cases m)
      note vm = Some[unfolded m]
      note d = var_match_SomeD[OF vm]
      have tk: "tokens (c # s) = Reference e # tokens rest" using vm by (rule tokens_reference)
      have r: "references (c # s) = e # references rest"
        "expand ?P env (c # s) = token_text ?P env (Reference e) @ expand ?P env rest"
        by (simp_all add: references_def expand_def tk)
      from "2.prems"(1) r(1) have ne: "\<not> str_includes e ''$$''"
        and rest_ok: "\<forall>e \<in> set (references rest). \<not> str_includes e ''$$''" by simp_all
      have c: "c = CHR ''$''" using d(1) by simp
      with "2.prems"(2) have prev: "prev \<noteq> Some (CHR ''$'')" by simp
      have "?pre (c # s) = ?pre (CHR ''$'' # CHR ''{'' # e @ CHR ''}'' # rest)"
        using d(1) by simp
      also have "\<dots> = CHR ''$'' # ?pre (CHR ''{'' # e @ CHR ''}'' # rest)"
        by (rule escape_skip) simp
      also have "?pre (CHR ''{'' # e @ CHR ''}'' # rest) = CHR ''{'' # ?pre (e @ CHR ''}'' # rest)"
        by (rule escape_skip) simp
      also have "?pre (e @ CHR ''}'' # rest) = e @ ?pre (CHR ''}'' # rest)"
        using ne by (rule escape_segment) simp
      also have "?pre (CHR ''}'' # rest) = CHR ''}'' # ?pre rest"
        by (rule escape_skip) simp
      finally have p: "?pre (c # s) = ''${'' @ e @ ''}'' @ ?pre rest" by simp
      have vm': "var_match prev (?pre (c # s)) = Some (e, ?pre rest)"
        unfolding p using prev d(2,3) by (rule var_match_SomeI)
      obtain x xs where px: "?pre (c # s) = x # xs" using p by simp
      let ?whole = "''${'' @ e @ ''}''"
      let ?name = "name_of_expression e"
      let ?st1 = "st\<lparr> hasVariable := True,
                        variables := (if ?name \<in> set (variables st) then variables st
                                      else variables st @ [?name]) \<rparr>"
      have inv: "Some (CHR ''}'') = Some (CHR ''$'') \<longrightarrow> take 1 rest \<noteq> ''$''" by simp
      have sm: "snd m = rest" by (simp add: m)
      show ?thesis
      proof (cases "substituteVariable ?whole e env")
        case (Inr v)
        let ?st2 = "?st1\<lparr> resolved := resolved ?st1 @ v \<rparr>"
        have run: "replace_variables env t prev (?pre (c # s)) st =
                   replace_variables env t (Some (CHR ''}'')) (?pre rest) ?st2"
          using vm' Inr unfolding px by (simp add: Let_def)
        have tt: "token_text ?P env (Reference e) = v" using Inr by (simp add: token_text_def)
        from "2.IH"(3)[OF False Some, unfolded sm, OF rest_ok inv, of ?st2] "2.prems"(3)
        show ?thesis unfolding run r tt by simp
      next
        case (Inl msg)
        let ?st2 = "?st1\<lparr> reported := reported ?st1 @
                              [\<lparr> err_message = msg, ctx_match = ?whole,
                                 ctx_expression = e, ctx_varName = ?name \<rparr>] \<rparr>"
        let ?st3 = "?st2\<lparr> resolved := resolved ?st2 @ ?whole \<rparr>"
        have nt: "\<not> t"
        proof
          assume t
          then have "thrown (replace_variables env t prev (?pre (c # s)) st) = Some msg"
            using vm' Inl unfolding px by (simp add: Let_def)
          with "2.prems"(3) show False by simp
        qed
        have run: "replace_variables env t prev (?pre (c # s)) st =
                   replace_variables env t (Some (CHR ''}'')) (?pre rest) ?st3"
          using vm' Inl nt unfolding px by (simp add: Let_def)
        have tt: "token_text ?P env (Reference e) = ?whole" using Inl by (simp add: token_text_def)
        from "2.IH"(3)[OF False Some, unfolded sm, OF rest_ok inv, of ?st3] "2.prems"(3)
        show ?thesis unfolding run r tt by simp
      qed
    qed
  qed
qed

lemma restore_plain:
  "CHR 0x00 \<notin> set x \<Longrightarrow>
   replace_all ESCAPED_DOLLAR_PLACEHOLDER rep (x @ y) = x @ replace_all ESCAPED_DOLLAR_PLACEHOLDER rep y"
proof (induction x)
  case Nil
  then show ?case by simp
next
  case (Cons a x)
  then have "a \<noteq> hd ESCAPED_DOLLAR_PLACEHOLDER" by (auto simp: placeholder_props)
  then have "take (length ESCAPED_DOLLAR_PLACEHOLDER) (a # x @ y) \<noteq> ESCAPED_DOLLAR_PLACEHOLDER"
    by (auto simp: ESCAPED_DOLLAR_PLACEHOLDER_def)
  from replace_all_skip[OF this] Cons show ?case by simp
qed

lemma restore_placeholder:
  "replace_all ESCAPED_DOLLAR_PLACEHOLDER rep (ESCAPED_DOLLAR_PLACEHOLDER @ y) =
     rep @ replace_all ESCAPED_DOLLAR_PLACEHOLDER rep y"
proof -
  obtain x xs where p: "ESCAPED_DOLLAR_PLACEHOLDER = x # xs"
    using placeholder_props(1) by (cases ESCAPED_DOLLAR_PLACEHOLDER) auto
  have "replace_all (x # xs) rep (x # (xs @ y)) = rep @ replace_all (x # xs) rep (drop (length (x # xs)) (x # (xs @ y)))"
    by (rule replace_all_match) simp_all
  then show ?thesis by (simp add: p)
qed

lemma first_two_members:
  "snd (first_two ps) = Some d \<Longrightarrow> d \<in> set ps"
  by (auto simp: first_two_def split: list.splits)

lemma split_members: "x \<in> set (split sep e) \<Longrightarrow> set x \<subseteq> set e"
  using split_acc_pieces[of x sep "[]" e] by (simp add: split_def)

lemma parse_default_chars:
  assumes "defaultValue (parse_expression e) = Some d"
  shows "set d \<subseteq> set e"
  using assms
  by (auto simp: parse_expression_def Let_def split: if_splits
           dest!: first_two_members split_members)

lemma substituteVariable_chars:
  assumes "substituteVariable m e env = Inr v" "c \<notin> set e" "\<forall>n w. env n = Some w \<longrightarrow> c \<notin> set w"
  shows "c \<notin> set v"
proof -
  let ?p = "parse_expression e"
  from assms(1) have "v = the (defaultValue ?p) \<and> defaultValue ?p \<noteq> None \<or>
      v = (case env (varName ?p) of None \<Rightarrow> [] | Some w \<Rightarrow> w)"
    by (auto simp: substituteVariable_def Let_def split: if_splits)
  then show ?thesis
  proof
    assume "v = the (defaultValue ?p) \<and> defaultValue ?p \<noteq> None"
    then have "defaultValue ?p = Some v" by auto
    from parse_default_chars[OF this] assms(2) show ?thesis by auto
  next
    assume "v = (case env (varName ?p) of None \<Rightarrow> [] | Some w \<Rightarrow> w)"
    with assms(3) show ?thesis by (auto split: option.splits)
  qed
qed

lemma tokens_chars:
  "tok \<in> set (tokens s) \<Longrightarrow>
   (case tok of Plain c \<Rightarrow> c \<in> set s | Reference e \<Rightarrow> set e \<subseteq> set s | Escape \<Rightarrow> True)"
proof (induction s rule: tokens.induct)
  case 1
  then show ?case by (simp add: tokens.simps)
next
  case (2 c s)
  show ?case
  proof (cases "c = CHR ''$'' \<and> take 1 s = ''$''")
    case True
    then obtain s' where s': "s = CHR ''$'' # s'" by (cases s) auto
    with True "2.prems" have "tok = Escape \<or> tok \<in> set (tokens s')"
      by (auto simp: tokens_escape)
    with "2.IH"(1)[OF True] s' show ?thesis by (auto split: token.splits)
  next
    case False
    show ?thesis
    proof (cases "var_match None (c # s)")
      case None
      with "2.prems" False have "tok = Plain c \<or> tok \<in> set (tokens s)"
        by (auto simp: tokens_plain)
      with "2.IH"(2)[OF False None] show ?thesis by (auto split: token.splits)
    next
      case (Some m)
      obtain e rest where m: "m = (e, rest)" by (cases m)
      note d = var_match_SomeD[OF Some[unfolded m]]
      from "2.prems" Some m have "tok = Reference e \<or> tok \<in> set (tokens rest)"
        by (auto simp: tokens_reference)
      then show ?thesis
      proof
        assume "tok = Reference e"
        then show ?thesis using d(1) by auto
      next
        assume a: "tok \<in> set (tokens rest)"
        have sub: "set rest \<subseteq> set (c # s)" using d(1) by auto
        from "2.IH"(3)[OF False Some] a m
        have "case tok of Plain c \<Rightarrow> c \<in> set rest | Reference e \<Rightarrow> set e \<subseteq> set rest | Escape \<Rightarrow> True"
          by (cases tok) simp_all
        with sub show ?thesis by (cases tok) auto
      qed
    qed
  qed
qed

lemma token_text_nul_free:
  assumes "tok \<in> set (tokens s)" "tok \<noteq> Escape" "CHR 0x00 \<notin> set s"
    "\<forall>n w. env n = Some w \<longrightarrow> CHR 0x00 \<notin> set w"
  shows "CHR 0x00 \<notin> set (token_text esc env tok)"
proof (cases tok)
  case Escape
  with assms(2) show ?thesis by simp
next
  case (Plain c)
  with tokens_chars[OF assms(1)] assms(3) show ?thesis by (auto simp: token_text_def)
next
  case (Reference e)
  with tokens_chars[OF assms(1)] assms(3) have e: "CHR 0x00 \<notin> set e" by auto
  show ?thesis
  proof (cases "substituteVariable (''${'' @ e @ ''}'') e env")
    case (Inl msg)
    with Reference e show ?thesis by (simp add: token_text_def)
  next
    case (Inr v)
    from substituteVariable_chars[OF Inr e assms(4)] Inr Reference show ?thesis
      by (simp add: token_text_def)
  qed
qed

lemma restore_tokens:
  assumes "\<forall>tok \<in> set toks. tok \<noteq> Escape \<longrightarrow> CHR 0x00 \<notin> set (token_text ESCAPED_DOLLAR_PLACEHOLDER env tok)"
  shows "replace_all ESCAPED_DOLLAR_PLACEHOLDER rep (concat (map (token_text ESCAPED_DOLLAR_PLACEHOLDER env) toks)) =
         concat (map (token_text rep env) toks)"
  using assms
proof (induction toks)
  case Nil
  then show ?case by (simp add: replace_all_Nil)
next
  case (Cons tok toks)
  show ?case
  proof (cases "tok = Escape")
    case True
    have e: "token_text ESCAPED_DOLLAR_PLACEHOLDER env Escape = ESCAPED_DOLLAR_PLACEHOLDER"
      "token_text rep env Escape = rep" by (simp_all add: token_text_def)
    from Cons True show ?thesis by (simp add: e restore_placeholder)
  next
    case False
    with Cons.prems have n: "CHR 0x00 \<notin> set (token_text ESCAPED_DOLLAR_PLACEHOLDER env tok)" by simp
    have "token_text ESCAPED_DOLLAR_PLACEHOLDER env tok = token_text rep env tok"
      using False by (cases tok) (simp_all add: token_text_def)
    with restore_plain[OF n] Cons show ?thesis by simp
  qed
qed

lemma restore_expand:
  assumes "CHR 0x00 \<notin> set s" "\<forall>n w. env n = Some w \<longrightarrow> CHR 0x00 \<notin> set w"
  shows "replace_all ESCAPED_DOLLAR_PLACEHOLDER rep (expand ESCAPED_DOLLAR_PLACEHOLDER env s) = expand rep env s"
  unfolding expand_def
  using token_text_nul_free[OF _ _ assms] by (intro restore_tokens) blast

lemma interpolateString_tokens:
  assumes "\<forall>e \<in> set (references s). \<not> str_includes e ''$$''" "CHR 0x00 \<notin> set s"
    "\<forall>n w. env n = Some w \<longrightarrow> CHR 0x00 \<notin> set w"
    "thrown (interpolateString s env t) = None"
  shows "resolved (interpolateString s env t) = expand ''$'' env s"
    "hasVariable (interpolateString s env t) = (references s \<noteq> [])"
    "variables (interpolateString s env t) =
       fold (\<lambda>n vs. if n \<in> set vs then vs else vs @ [n]) (map name_of_expression (references s)) []"
proof -
  let ?R = "replace_variables env t None (replace_all ''$$'' ESCAPED_DOLLAR_PLACEHOLDER s) interp_init"
  have i: "interpolateString s env t =
      ?R\<lparr> resolved := replace_all ESCAPED_DOLLAR_PLACEHOLDER ''$'' (resolved ?R) \<rparr>"
    by (simp add: interpolateString_def Let_def)
  from assms(4) have th: "thrown ?R = None" unfolding i by simp
  from replace_variables_tokens[OF assms(1) _ th] have
    r: "resolved ?R = expand ESCAPED_DOLLAR_PLACEHOLDER env s"
       "hasVariable ?R = (references s \<noteq> [])"
       "variables ?R = fold (\<lambda>n vs. if n \<in> set vs then vs else vs @ [n])
           (map name_of_expression (references s)) []"
    by (simp_all add: interp_init_def)
  show "resolved (interpolateString s env t) = expand ''$'' env s"
    unfolding i using r(1) restore_expand[OF assms(2,3)] by simp
  show "hasVariable (interpolateString s env t) = (references s \<noteq> [])"
    unfolding i using r(2) by simp
  show "variables (interpolateString s env t) =
       fold (\<lambda>n vs. if n \<in> set vs then vs else vs @ [n]) (map name_of_expression (references s)) []"
    unfolding i using r(3) by simp
qed

lemma interpolateString_no_throw: "\<not> t \<Longrightarrow> thrown (interpolateString s env t) = None"
  by (simp add: interpolateString_def Let_def replace_variables_no_throw interp_init_def)

lemma tokens_plain_run:
  assumes "CHR ''$'' \<notin> set x"
  shows "tokens (x @ u) = map Plain x @ tokens u"
  using assms
proof (induction x)
  case Nil
  then show ?case by simp
next
  case (Cons a x)
  then have "var_match None (a # x @ u) = None" by (intro var_match_not_dollar) auto
  from tokens_plain[OF this] Cons show ?case by auto
qed

lemma expand_escape: "expand esc env (''$$'' @ u) = esc @ expand esc env u"
  by (simp add: expand_def tokens_escape token_text_def)

lemma expand_plain_run:
  assumes "CHR ''$'' \<notin> set x"
  shows "expand esc env (x @ u) = x @ expand esc env u"
proof -
  have "concat (map (token_text esc env) (map Plain x)) = x"
    by (induction x) (simp_all add: token_text_def)
  then show ?thesis by (simp add: expand_def tokens_plain_run[OF assms])
qed

text \<open>
  C8. The claim: in every input string each \<open>$$\<close> comes out as one \<open>$\<close>. As stated it
  fails for a \<open>$$\<close> inside the braces of a reference: it is replaced by the placeholder,
  the placeholder becomes part of the expression, and the whole reference is substituted.
  It also fails when the input, or the value of a variable, has a NUL character that
  completes a placeholder text of its own: the restoring pass then turns the wrong text into
  the dollar.
\<close>

theorem dollar_escape_counterexample:
  "resolved (interpolateString ''${A$$B}'' (\<lambda>v. None) True) = [] \<and>
   hasVariable (interpolateString ''${A$$B}'' (\<lambda>v. None) True) \<and>
   resolved (interpolateString (CHR 0x00 # ''ESCAPED_DOLLAR$$'') (\<lambda>v. None) True) =
     ''$ESCAPED_DOLLAR'' @ [CHR 0x00] \<and>
   resolved (interpolateString ''${A}$$''
      (\<lambda>v. if v = ''A'' then Some (CHR 0x00 # ''ESCAPED_DOLLAR'') else None) True) =
     ''$ESCAPED_DOLLAR'' @ [CHR 0x00]"
  by code_simp

lemma references_escape: "references (''$$'' @ u) = references u"
  by (simp add: references_def tokens_escape)

lemma references_plain_run:
  assumes "CHR ''$'' \<notin> set x"
  shows "references (x @ u) = references u"
proof -
  have "concat (map (\<lambda>tok. case tok of Reference e \<Rightarrow> [e] | _ \<Rightarrow> []) (map Plain x)) = []"
    by (induction x) simp_all
  then show ?thesis by (simp add: references_def tokens_plain_run[OF assms])
qed

text \<open>
  C8, amended. Take an input string without NUL character in which no \<open>$$\<close> lies between
  the braces of a reference, and an environment whose values have no NUL character. Read
  from the left (\<open>tokens\<close>), each \<open>$$\<close> comes out as one \<open>$\<close>, each reference as its
  substitution, and every other character as itself; the variables recorded are those of
  the references, so an escaped dollar is never a reference or part of one. In particular
  \<open>$$\<close> before such a string comes out as \<open>$\<close> before the output of the string, and \<open>$${v}\<close>
  before it, for a text \<open>v\<close> without dollar and NUL, comes out as the literal \<open>${v}\<close>. With
  \<open>throwOnError\<close> off nothing is raised.
\<close>

theorem dollar_escape:
  assumes "\<forall>e \<in> set (references s). \<not> str_includes e ''$$''"
    and "CHR 0x00 \<notin> set s"
    and "\<forall>n w. env n = Some w \<longrightarrow> CHR 0x00 \<notin> set w"
  shows "(thrown (interpolateString s env t) = None \<longrightarrow>
            resolved (interpolateString s env t) = expand ''$'' env s \<and>
            hasVariable (interpolateString s env t) = (references s \<noteq> []) \<and>
            variables (interpolateString s env t) =
              fold (\<lambda>n vs. if n \<in> set vs then vs else vs @ [n])
                (map name_of_expression (references s)) []) \<and>
         (\<not> t \<longrightarrow> thrown (interpolateString s env t) = None) \<and>
         (thrown (interpolateString (''$$'' @ s) env t) = None \<longrightarrow>
            resolved (interpolateString (''$$'' @ s) env t) = ''$'' @ expand ''$'' env s) \<and>
         (CHR ''$'' \<notin> set v \<and> CHR 0x00 \<notin> set v \<and>
          thrown (interpolateString (''$${'' @ v @ ''}'' @ s) env t) = None \<longrightarrow>
            resolved (interpolateString (''$${'' @ v @ ''}'' @ s) env t) =
              ''${'' @ v @ ''}'' @ expand ''$'' env s)"
proof -
  have a: "resolved (interpolateString (''$$'' @ s) env t) = ''$'' @ expand ''$'' env s"
    if th: "thrown (interpolateString (''$$'' @ s) env t) = None"
  proof -
    have r: "\<forall>e \<in> set (references (''$$'' @ s)). \<not> str_includes e ''$$''"
      using assms(1) by (simp only: references_escape)
    have n: "CHR 0x00 \<notin> set (''$$'' @ s)" using assms(2) by simp
    from interpolateString_tokens(1)[OF r n assms(3) th] expand_escape[of "''$''" env s]
    show ?thesis by simp
  qed
  have b: "resolved (interpolateString (''$${'' @ v @ ''}'' @ s) env t) =
              ''${'' @ v @ ''}'' @ expand ''$'' env s"
    if v: "CHR ''$'' \<notin> set v" "CHR 0x00 \<notin> set v"
      and th: "thrown (interpolateString (''$${'' @ v @ ''}'' @ s) env t) = None"
  proof -
    let ?x = "''{'' @ v @ ''}''"
    have x: "CHR ''$'' \<notin> set ?x" using v(1) by simp
    have eq: "''$${'' @ v @ ''}'' @ s = ''$$'' @ ?x @ s" by simp
    have "references (''$$'' @ ?x @ s) = references s"
      by (simp only: references_escape references_plain_run[OF x])
    with assms(1) have r: "\<forall>e \<in> set (references (''$$'' @ ?x @ s)). \<not> str_includes e ''$$''"
      by simp
    have n: "CHR 0x00 \<notin> set (''$$'' @ ?x @ s)" using assms(2) v(2) by simp
    have e: "expand ''$'' env (''$$'' @ ?x @ s) = ''$'' @ ?x @ expand ''$'' env s"
      by (simp only: expand_escape expand_plain_run[OF x])
    from interpolateString_tokens(1)[OF r n assms(3) th[unfolded eq]] e
    show ?thesis unfolding eq by simp
  qed
  from interpolateString_tokens[OF assms, of t] interpolateString_no_throw[of t s env] a b
  show ?thesis by blast
qed

theorem dollar_escape_witness:
  "references ''${PORT} and $$'' = [''PORT''] \<and> \<not> str_includes ''PORT'' ''$$'' \<and>
   CHR 0x00 \<notin> set ''${PORT} and $$'' \<and>
   thrown (interpolateString ''${PORT} and $$'' (map_of [(''PORT'', ''3000'')]) True) = None \<and>
   resolved (interpolateString ''${PORT} and $$'' (map_of [(''PORT'', ''3000'')]) True)
     = ''3000 and $'' \<and>
   variables (interpolateString ''${PORT} and $$'' (map_of [(''PORT'', ''3000'')]) True)
     = [''PORT''] \<and>
   resolved (interpolateString ''$$${PORT} and $$'' (map_of [(''PORT'', ''3000'')]) True)
     = ''$3000 and $'' \<and>
   CHR ''$'' \<notin> set ''PORT'' \<and>
   resolved (interpolateString ''$${PORT}${PORT} and $$'' (map_of [(''PORT'', ''3000'')]) True)
     = ''${PORT}3000 and $''"
proof -
  let ?s = "''${PORT} and $$''"
  let ?env = "map_of [(''PORT'', ''3000'')]"
  have r: "references ?s = [''PORT'']" by code_simp
  have i: "\<not> str_includes ''PORT'' ''$$''" by (simp add: startsWith_def)
  have h1: "\<forall>e \<in> set (references ?s). \<not> str_includes e ''$$''"
    unfolding r using i by simp
  have h2: "CHR 0x00 \<notin> set ?s" "CHR ''$'' \<notin> set ''PORT''" "CHR 0x00 \<notin> set ''PORT''" by simp_all
  have h3: "\<forall>n w. ?env n = Some w \<longrightarrow> CHR 0x00 \<notin> set w" by (auto split: if_splits)
  have th: "thrown (interpolateString ?s ?env True) = None"
    "thrown (interpolateString (''$$'' @ ?s) ?env True) = None"
    "thrown (interpolateString (''$${'' @ ''PORT'' @ ''}'' @ ?s) ?env True) = None"
    by code_simp+
  have e: "expand ''$'' ?env ?s = ''3000 and $''" by code_simp
  have n: "name_of_expression ''PORT'' = ''PORT''" by (simp add: name_of_expression_def)
  note t = dollar_escape[OF h1 h2(1) h3, of True "''PORT''"]
  from t th(1) have a: "resolved (interpolateString ?s ?env True) = expand ''$'' ?env ?s"
    "variables (interpolateString ?s ?env True) =
       fold (\<lambda>n vs. if n \<in> set vs then vs else vs @ [n]) (map name_of_expression (references ?s)) []"
    by blast+
  from t th(2) have b: "resolved (interpolateString (''$$'' @ ?s) ?env True) = ''$'' @ expand ''$'' ?env ?s"
    by blast
  from t th(3) h2(2,3)
  have c: "resolved (interpolateString (''$${'' @ ''PORT'' @ ''}'' @ ?s) ?env True) =
             ''${'' @ ''PORT'' @ ''}'' @ expand ''$'' ?env ?s"
    by blast
  from a b c e r n i h2 th(1) show ?thesis by simp
qed

end
